theory Spec2Isabelle
  imports Complex_Main "HOL-Library.Product_Lexorder" "HOL-Library.Option_ord" "HOL-Library.Multiset"
begin

section \<open>Grid map\<close>

text \<open>
  A position is a pair of Python integers \<open>(x, y)\<close>. The grid is the pair of dimensions
  \<open>GRID_W\<close>, \<open>GRID_H\<close> and the boolean occupancy array \<open>blocked\<close> of shape
  \<open>(GRID_W, GRID_H)\<close>. The array is read, in the path finders, only at indices that
  passed the bounds test, so it is a function on positions.
\<close>

type_synonym pos = "int \<times> int"

record grid =
  GRID_W :: int
  GRID_H :: int
  blocked :: "pos \<Rightarrow> bool"


text \<open>The test \<open>0 <= xx < GRID_W and 0 <= yy < GRID_H\<close>.\<close>

definition in_bounds :: "grid \<Rightarrow> pos \<Rightarrow> bool" where
  "in_bounds G p \<longleftrightarrow> 0 \<le> fst p \<and> fst p < GRID_W G \<and> 0 \<le> snd p \<and> snd p < GRID_H G"

text \<open>The guarded assignment \<open>if 0 <= xx < GRID_W and 0 <= yy < GRID_H: blocked[xx, yy] = True\<close>.\<close>

definition block_cell :: "pos \<Rightarrow> grid \<Rightarrow> grid" where
  "block_cell p G = (if in_bounds G p then G\<lparr>blocked := (blocked G)(p := True)\<rparr> else G)"

text \<open>\<open>range(a, b)\<close> is the integer interval \<open>[a..b - 1]\<close>.\<close>

definition block_rect :: "grid \<Rightarrow> int \<Rightarrow> int \<Rightarrow> int \<Rightarrow> int \<Rightarrow> grid" where
  "block_rect G x y w h =
     fold (\<lambda>xx G'. fold (\<lambda>yy. block_cell (xx, yy)) [y..y + h - 1] G') [x..x + w - 1] G"




definition room_wall :: "grid \<Rightarrow> int \<Rightarrow> int \<Rightarrow> int \<Rightarrow> int \<Rightarrow> grid" where
  "room_wall G x y w h = block_rect G x y w h"


text \<open>The cells a rectangle or a line names.\<close>

definition rect_cells :: "int \<Rightarrow> int \<Rightarrow> int \<Rightarrow> int \<Rightarrow> pos set" where
  "rect_cells x y w h = {p. x \<le> fst p \<and> fst p < x + w \<and> y \<le> snd p \<and> snd p < y + h}"



text \<open>The floor of the scripts: 35 by 20 cells, nothing blocked yet (\<open>np.zeros\<close>).\<close>

definition empty_floor :: grid where
  "empty_floor = \<lparr>GRID_W = 35, GRID_H = 20, blocked = (\<lambda>p. False)\<rparr>"

section \<open>Clusters, fill percentages and the DUE predicate\<close>

record cluster =
  name :: string
  bins :: "pos list"
  service :: pos
  zone :: string

text \<open>\<open>d.get(k, default)\<close> on a dictionary.\<close>

definition dict_get :: "('k \<rightharpoonup> 'v) \<Rightarrow> 'k \<Rightarrow> 'v \<Rightarrow> 'v" where
  "dict_get d k dflt = (case d k of None \<Rightarrow> dflt | Some v \<Rightarrow> v)"

text \<open>
  The fill percentage of a cluster is looked up by the cluster's name in the configured
  table, \<open>0.0\<close> when the name is not listed (\<open>PCT_FILL\<close>, and the \<open>pct\<close> entry the
  multi-floor script plants into each cluster).
\<close>

definition pct_fill :: "(string \<rightharpoonup> real) \<Rightarrow> cluster \<Rightarrow> real" where
  "pct_fill pct_by_cluster c = dict_get pct_by_cluster (name c) 0"

text \<open>\<open>DUE_POINTS = [tuple(c["service"]) for c in CLUSTERS if PCT_FILL[c["name"]] >= THRESHOLD_PCT]\<close>.\<close>

definition due_points :: "(string \<rightharpoonup> real) \<Rightarrow> real \<Rightarrow> cluster list \<Rightarrow> pos list" where
  "due_points pct_by_cluster threshold_pct cs =
     map service (filter (\<lambda>c. pct_fill pct_by_cluster c \<ge> threshold_pct) cs)"

definition service_points :: "cluster list \<Rightarrow> pos list" where
  "service_points cs = map service cs"

text \<open>The dictionary comprehension \<open>{tuple(c["service"]): c["zone"] for c in CLUSTERS}\<close>:
  a later cluster overwrites an earlier one at the same key.\<close>

definition sp2zone :: "cluster list \<Rightarrow> (pos \<rightharpoonup> string)" where
  "sp2zone cs = fold (\<lambda>c m. m(service c \<mapsto> zone c)) cs Map.empty"

definition sp2name :: "cluster list \<Rightarrow> (pos \<rightharpoonup> string)" where
  "sp2name cs = fold (\<lambda>c m. m(service c \<mapsto> name c)) cs Map.empty"

definition ZONE_RANK :: "string \<rightharpoonup> int" where
  "ZONE_RANK = [''bottom_left'' \<mapsto> 0, ''bottom_center'' \<mapsto> 1, ''bottom_right'' \<mapsto> 2,
                ''kantin'' \<mapsto> 3, ''koperasi'' \<mapsto> 4, ''lain'' \<mapsto> 5]"

section \<open>Route strategies\<close>

definition manhattan :: "pos \<Rightarrow> pos \<Rightarrow> int" where
  "manhattan p q = \<bar>fst p - fst q\<bar> + \<bar>snd p - snd q\<bar>"

text \<open>\<open>min(xs, key=k)\<close> on a non-empty list: the first element whose key is minimal.\<close>

fun min_from :: "('a \<Rightarrow> int) \<Rightarrow> 'a \<Rightarrow> 'a list \<Rightarrow> 'a" where
  "min_from k best [] = best"
| "min_from k best (x # xs) = min_from k (if k x < k best then x else best) xs"

definition py_min :: "('a \<Rightarrow> int) \<Rightarrow> 'a list \<Rightarrow> 'a" where
  "py_min k xs = min_from k (hd xs) (tl xs)"

lemma min_from_in: "min_from k b xs \<in> insert b (set xs)"
  by (induction xs arbitrary: b) auto

lemma py_min_in: "xs \<noteq> [] \<Longrightarrow> py_min k xs \<in> set xs"
  using min_from_in [of k "hd xs" "tl xs"] by (cases xs) (auto simp: py_min_def)

text \<open>The loop \<open>while remaining: nxt = min(remaining, key=...); route.append(nxt);
  remaining.remove(nxt); cur = nxt\<close>.\<close>

function nn_loop :: "pos \<Rightarrow> pos list \<Rightarrow> pos list \<Rightarrow> pos list" where
  "nn_loop cur route remaining =
     (if remaining = [] then route
      else let nxt = py_min (\<lambda>p. \<bar>fst p - fst cur\<bar> + \<bar>snd p - snd cur\<bar>) remaining
           in nn_loop nxt (route @ [nxt]) (remove1 nxt remaining))"
  by pat_completeness auto
termination
proof (relation "measure (\<lambda>(cur, route, remaining). length remaining)")
  show "wf (measure (\<lambda>(cur, route, remaining). length remaining))" by simp
next
  fix cur :: pos and route remaining :: "pos list" and nxt
  assume ne: "remaining \<noteq> []"
    and nxt: "nxt = py_min (\<lambda>p. \<bar>fst p - fst cur\<bar> + \<bar>snd p - snd cur\<bar>) remaining"
  have mem: "nxt \<in> set remaining" using py_min_in [OF ne] nxt by simp
  then have "0 < length remaining" by (cases remaining) auto
  then have "length (remove1 nxt remaining) < length remaining"
    using mem by (simp add: length_remove1)
  then show "((nxt, route @ [nxt], remove1 nxt remaining), (cur, route, remaining))
      \<in> measure (\<lambda>(cur, route, remaining). length remaining)" by simp
qed

declare nn_loop.simps [simp del]

text \<open>\<open>build_route_nn\<close>; \<open>END_POS\<close> is \<open>None\<close> or a position.\<close>

definition build_route_nn :: "pos list \<Rightarrow> pos \<Rightarrow> pos option \<Rightarrow> pos list" where
  "build_route_nn DUE_POINTS start END_POS =
     (let route = nn_loop start [start] DUE_POINTS
      in case END_POS of None \<Rightarrow> route | Some e \<Rightarrow> route @ [e])"

text \<open>The sort key \<open>(ZONE_RANK.get(sp2zone.get(p, "lain"), 5), p[1], p[0])\<close>; tuples
  compare lexicographically.\<close>

definition patrol_key :: "cluster list \<Rightarrow> pos \<Rightarrow> int \<times> int \<times> int" where
  "patrol_key cs p = (dict_get ZONE_RANK (dict_get (sp2zone cs) p ''lain'') 5, snd p, fst p)"

text \<open>\<open>build_route_patrol_real\<close>; \<open>sorted\<close> is a stable sort, as \<open>sort_key\<close> is.\<close>

definition build_route_patrol_real :: "cluster list \<Rightarrow> pos \<Rightarrow> pos option \<Rightarrow> pos list" where
  "build_route_patrol_real cs start END_POS =
     (let ordered = sort_key (patrol_key cs) (service_points cs);
          route = [start] @ ordered
      in case END_POS of None \<Rightarrow> route | Some e \<Rightarrow> route @ [e])"

text \<open>\<open>build_routes\<close> of the multi-floor script: the same two strategies behind a mode
  string; it returns the route, the DUE points and the name table.\<close>

definition build_routes ::
  "cluster list \<Rightarrow> (string \<rightharpoonup> real) \<Rightarrow> real \<Rightarrow> pos \<Rightarrow> pos option \<Rightarrow> string
     \<Rightarrow> pos list \<times> pos list \<times> (pos \<rightharpoonup> string)" where
  "build_routes cs pct_by_cluster threshold_pct start_pos end_pos mode =
     (let due_pts = due_points pct_by_cluster threshold_pct cs;
          route = (if mode = ''nn'' then build_route_nn due_pts start_pos end_pos
                   else build_route_patrol_real cs start_pos end_pos)
      in (route, due_pts, sp2name cs))"

section \<open>Path finding\<close>

text \<open>
  The priority queue of \<open>heapq\<close> is kept as the list of its entries: \<open>heappush\<close> adds an
  entry, \<open>heappop\<close> removes and returns the least one. Entries are Python tuples, compared
  lexicographically. The last component of an A* entry is the parent, \<open>None\<close> or a
  position; Python cannot order \<open>None\<close> against a tuple, and here \<open>None\<close> is put below every
  position. The choice is never used: parents are compared only between two entries that
  agree on \<open>(f, g, cur)\<close>, and the invariant of the search excludes such a pair (lemma
  \<open>astar_queue_keys\<close>).
\<close>

definition heappush :: "'a list \<Rightarrow> 'a \<Rightarrow> 'a list" where
  "heappush heap x = heap @ [x]"

definition heappop :: "('a::linorder) list \<Rightarrow> 'a \<times> 'a list" where
  "heappop heap = (let m = Min (set heap) in (m, remove1 m heap))"

text \<open>The four moves, in the order the loops try them.\<close>

definition DIRS :: "(int \<times> int) list" where
  "DIRS = [(1, 0), (-1, 0), (0, 1), (0, -1)]"

type_synonym entry = "int \<times> int \<times> pos \<times> pos option"

type_synonym astar_state = "entry list \<times> (pos \<rightharpoonup> pos option) \<times> (pos \<rightharpoonup> int) \<times> pos set"

text \<open>The body of the \<open>for dx,dy\<close> loop of \<open>astar\<close>, for one move.\<close>

definition astar_relax ::
  "grid \<Rightarrow> pos \<Rightarrow> pos \<Rightarrow> int \<Rightarrow> int \<times> int
     \<Rightarrow> entry list \<times> (pos \<rightharpoonup> int) \<Rightarrow> entry list \<times> (pos \<rightharpoonup> int)" where
  "astar_relax G goal cur g d = (\<lambda>(openh, gscore).
     let n = (fst cur + fst d, snd cur + snd d) in
     if \<not> in_bounds G n then (openh, gscore)
     else if blocked G n then (openh, gscore)
     else let ng = g + 1 in
       if (case gscore n of None \<Rightarrow> True | Some old \<Rightarrow> ng < old)
       then (heappush openh (ng + manhattan n goal, ng, n, Some cur), gscore(n \<mapsto> ng))
       else (openh, gscore))"

text \<open>
  The loop \<open>while p is not None: path.append(p); p = came[p]\<close>. It has no result when a
  key is missing from \<open>came\<close> (\<open>KeyError\<close>) or when the chain of parents never ends.
\<close>

partial_function (option) came_walk ::
  "(pos \<rightharpoonup> pos option) \<Rightarrow> pos option \<Rightarrow> pos list \<Rightarrow> pos list option" where
  "came_walk came p path =
     (case p of
        None \<Rightarrow> Some path
      | Some q \<Rightarrow> (case came q of None \<Rightarrow> None | Some p' \<Rightarrow> came_walk came p' (path @ [q])))"

declare came_walk.simps [code]

definition cells :: "grid \<Rightarrow> pos set" where
  "cells G = {p. in_bounds G p}"

definition entry_node :: "entry \<Rightarrow> pos" where
  "entry_node e = fst (snd (snd e))"

lemma length_remove1_less: "x \<in> set xs \<Longrightarrow> length (remove1 x xs) < length xs"
  using length_pos_if_in_set [of x xs] by (simp add: length_remove1)

lemma finite_cells: "finite (cells G)"
proof -
  have "cells G \<subseteq> {0..<GRID_W G} \<times> {0..<GRID_H G}"
    by (auto simp: cells_def in_bounds_def)
  then show ?thesis by (rule finite_subset) simp
qed

lemma heappop_in:
  assumes "heap \<noteq> []" and "heappop heap = (m, rest)"
  shows "m \<in> set heap" and "rest = remove1 m heap" and "\<forall>e \<in> set heap. m \<le> e"
proof -
  have m: "m = Min (set heap)" and r: "rest = remove1 m heap"
    using assms(2) by (auto simp: heappop_def Let_def)
  show "m \<in> set heap" using m assms(1) Min_in [of "set heap"] by simp
  show "rest = remove1 m heap" by (rule r)
  show "\<forall>e \<in> set heap. m \<le> e" using m by simp
qed

lemma astar_relax_nodes:
  assumes "astar_relax G goal cur g d (openh, gscore) = (openh', gscore')"
  shows "entry_node ` set openh' \<subseteq> entry_node ` set openh \<union> cells G"
  using assms
  by (auto simp: astar_relax_def Let_def heappush_def entry_node_def cells_def
      split: if_splits)

lemma astar_fold_nodes:
  assumes "fold (astar_relax G goal cur g) ds (openh, gscore) = (openh', gscore')"
  shows "entry_node ` set openh' \<subseteq> entry_node ` set openh \<union> cells G"
  using assms
proof (induction ds arbitrary: openh gscore)
  case Nil
  then show ?case by auto
next
  case (Cons d ds)
  obtain o1 g1 where s1: "astar_relax G goal cur g d (openh, gscore) = (o1, g1)"
    by (cases "astar_relax G goal cur g d (openh, gscore)")
  from Cons.prems s1 have "fold (astar_relax G goal cur g) ds (o1, g1) = (openh', gscore')"
    by simp
  from Cons.IH [OF this] astar_relax_nodes [OF s1] show ?case by blast
qed

text \<open>The \<open>while openh\<close> loop of \<open>astar\<close>.\<close>

function astar_loop :: "grid \<Rightarrow> pos \<Rightarrow> astar_state \<Rightarrow> pos list option" where
  "astar_loop G goal (openh, came, gscore, visited) =
     (if openh = [] then Some []
      else case heappop openh of ((f, g, cur, parent), openh1) \<Rightarrow>
        if cur \<in> visited then astar_loop G goal (openh1, came, gscore, visited)
        else let visited1 = insert cur visited; came1 = came(cur \<mapsto> parent) in
          if cur = goal then map_option rev (came_walk came1 (Some cur) [])
          else case fold (astar_relax G goal cur g) DIRS (openh1, gscore) of
            (openh2, gscore2) \<Rightarrow> astar_loop G goal (openh2, came1, gscore2, visited1))"
  by pat_completeness auto
termination
proof (relation "inv_image (less_than <*lex*> less_than)
    (\<lambda>(G, goal, openh, came, gscore, visited).
       (card ((cells G \<union> entry_node ` set openh) - visited), length openh))")
  show "wf (inv_image (less_than <*lex*> less_than)
    (\<lambda>(G, goal, openh, came, gscore, visited).
       (card ((cells G \<union> entry_node ` set openh) - visited), length openh)))"
    by (intro wf_inv_image wf_lex_prod wf_less_than)
next
  fix G :: grid and goal :: pos and openh :: "entry list" and came :: "pos \<rightharpoonup> pos option"
    and gscore :: "pos \<rightharpoonup> int" and visited :: "pos set"
    and x xa :: "entry" and y :: "entry list" and x1 x2 :: int and xb and cur :: pos and parent
  assume ne: "openh \<noteq> []" and pop: "(x, y) = heappop openh" and "cur \<in> visited"
  have r: "y = remove1 x openh" and mem: "x \<in> set openh"
    using heappop_in [OF ne pop [symmetric]] by auto
  have "entry_node ` set y \<subseteq> entry_node ` set openh"
    using r set_remove1_subset [of x openh] by auto
  then have "(cells G \<union> entry_node ` set y) - visited
      \<subseteq> (cells G \<union> entry_node ` set openh) - visited" by auto
  then have c: "card ((cells G \<union> entry_node ` set y) - visited)
      \<le> card ((cells G \<union> entry_node ` set openh) - visited)"
    by (intro card_mono) (auto simp: finite_cells)
  have "length y < length openh"
    using r mem by (simp add: length_remove1_less)
  with c show "((G, goal, y, came, gscore, visited), (G, goal, openh, came, gscore, visited))
      \<in> inv_image (less_than <*lex*> less_than)
        (\<lambda>(G, goal, openh, came, gscore, visited).
           (card ((cells G \<union> entry_node ` set openh) - visited), length openh))"
    by auto
next
  fix G :: grid and goal :: pos and openh :: "entry list" and came :: "pos \<rightharpoonup> pos option"
    and gscore :: "pos \<rightharpoonup> int" and visited :: "pos set"
    and x :: entry and y :: "entry list" and f g :: int and xb xc and cur :: pos and parent
    and visited1 and came1 :: "pos \<rightharpoonup> pos option" and openh2 gscore2
  assume ne: "openh \<noteq> []" and pop: "(x, y) = heappop openh"
    and x: "(f, xb) = x" and xb: "(g, xc) = xb" and xc: "(cur, parent) = xc"
    and nv: "cur \<notin> visited" and v1: "visited1 = insert cur visited"
    and fd: "(openh2, gscore2) = fold (astar_relax G goal cur g) DIRS (y, gscore)"
  have r: "y = remove1 x openh" and mem: "x \<in> set openh"
    using heappop_in [OF ne pop [symmetric]] by auto
  have cur: "cur = entry_node x" using x xb xc by (auto simp: entry_node_def)
  have "entry_node ` set openh2 \<subseteq> entry_node ` set y \<union> cells G"
    using astar_fold_nodes [of G goal cur g DIRS y gscore openh2 gscore2] fd by simp
  moreover have "entry_node ` set y \<subseteq> entry_node ` set openh"
    using r set_remove1_subset [of x openh] by auto
  ultimately have "(cells G \<union> entry_node ` set openh2) - visited1
      \<subseteq> ((cells G \<union> entry_node ` set openh) - visited) - {cur}"
    using v1 by auto
  moreover have "cur \<in> (cells G \<union> entry_node ` set openh) - visited"
    using mem cur nv by auto
  ultimately have "(cells G \<union> entry_node ` set openh2) - visited1
      \<subset> (cells G \<union> entry_node ` set openh) - visited" by blast
  then have "card ((cells G \<union> entry_node ` set openh2) - visited1)
      < card ((cells G \<union> entry_node ` set openh) - visited)"
    by (intro psubset_card_mono) (auto simp: finite_cells)
  then show "((G, goal, openh2, came1, gscore2, visited1), (G, goal, openh, came, gscore, visited))
      \<in> inv_image (less_than <*lex*> less_than)
        (\<lambda>(G, goal, openh, came, gscore, visited).
           (card ((cells G \<union> entry_node ` set openh) - visited), length openh))"
    by auto
qed

declare astar_loop.simps [simp del]

text \<open>\<open>astar(start, goal)\<close> on the grid \<open>G\<close>.\<close>

definition astar :: "grid \<Rightarrow> pos \<Rightarrow> pos \<Rightarrow> pos list option" where
  "astar G start goal =
     (if start = goal then Some [start]
      else astar_loop G goal
        (heappush [] (manhattan start goal, 0, start, None), Map.empty, [start \<mapsto> 0], {}))"

type_synonym dijkstra_state =
  "(int \<times> pos) list \<times> (pos \<rightharpoonup> int) \<times> (pos \<rightharpoonup> pos) \<times> pos set"

text \<open>The body of the \<open>for dx, dy\<close> loop of \<open>dijkstra\<close>, for one move; \<open>dst\<close> is the dictionary \<open>dist\<close>,
  and \<open>dist.get((nx,ny), math.inf)\<close> is above every integer when the key is missing.\<close>

definition dijkstra_relax ::
  "grid \<Rightarrow> pos \<Rightarrow> int \<Rightarrow> int \<times> int
     \<Rightarrow> (int \<times> pos) list \<times> (pos \<rightharpoonup> int) \<times> (pos \<rightharpoonup> pos)
     \<Rightarrow> (int \<times> pos) list \<times> (pos \<rightharpoonup> int) \<times> (pos \<rightharpoonup> pos)" where
  "dijkstra_relax G cur d dir = (\<lambda>(pq, dst, prev).
     let n = (fst cur + fst dir, snd cur + snd dir) in
     if \<not> in_bounds G n then (pq, dst, prev)
     else if blocked G n then (pq, dst, prev)
     else let nd = d + 1 in
       if (case dst n of None \<Rightarrow> True | Some old \<Rightarrow> nd < old)
       then (heappush pq (nd, n), dst(n \<mapsto> nd), prev(n \<mapsto> cur))
       else (pq, dst, prev))"

text \<open>
  The loop \<open>while p in prev or p == start: path.append(p); if p == start: break;
  p = prev[p]\<close>. It has no result when the chain of predecessors never ends.
\<close>

partial_function (option) prev_walk ::
  "(pos \<rightharpoonup> pos) \<Rightarrow> pos \<Rightarrow> pos \<Rightarrow> pos list \<Rightarrow> pos list option" where
  "prev_walk prev start p path =
     (if prev p \<noteq> None \<or> p = start
      then (if p = start then Some (path @ [p])
            else prev_walk prev start (the (prev p)) (path @ [p]))
      else Some path)"

declare prev_walk.simps [code]

definition pq_node :: "int \<times> pos \<Rightarrow> pos" where
  "pq_node e = snd e"

lemma dijkstra_relax_nodes:
  assumes "dijkstra_relax G cur d dir (pq, dst, prev) = (pq', dst', prev')"
  shows "pq_node ` set pq' \<subseteq> pq_node ` set pq \<union> cells G"
  using assms
  by (auto simp: dijkstra_relax_def Let_def heappush_def pq_node_def cells_def
      split: if_splits)

lemma dijkstra_fold_nodes:
  assumes "fold (dijkstra_relax G cur d) ds (pq, dst, prev) = (pq', dst', prev')"
  shows "pq_node ` set pq' \<subseteq> pq_node ` set pq \<union> cells G"
  using assms
proof (induction ds arbitrary: pq dst prev)
  case Nil
  then show ?case by auto
next
  case (Cons dir ds)
  obtain q1 d1 p1 where s1: "dijkstra_relax G cur d dir (pq, dst, prev) = (q1, d1, p1)"
    by (cases "dijkstra_relax G cur d dir (pq, dst, prev)") auto
  from Cons.prems s1 have "fold (dijkstra_relax G cur d) ds (q1, d1, p1) = (pq', dst', prev')"
    by simp
  from Cons.IH [OF this] dijkstra_relax_nodes [OF s1] show ?case by blast
qed

text \<open>The \<open>while pq\<close> loop of \<open>dijkstra\<close>.\<close>

function dijkstra_loop :: "grid \<Rightarrow> pos \<Rightarrow> pos \<Rightarrow> dijkstra_state \<Rightarrow> pos list option" where
  "dijkstra_loop G start goal (pq, dst, prev, visited) =
     (if pq = [] then Some []
      else case heappop pq of ((d, cur), pq1) \<Rightarrow>
        if cur \<in> visited then dijkstra_loop G start goal (pq1, dst, prev, visited)
        else let visited1 = insert cur visited in
          if cur = goal then map_option rev (prev_walk prev start cur [])
          else case fold (dijkstra_relax G cur d) DIRS (pq1, dst, prev) of
            (pq2, dst2, prev2) \<Rightarrow> dijkstra_loop G start goal (pq2, dst2, prev2, visited1))"
  by pat_completeness auto
termination
proof (relation "inv_image (less_than <*lex*> less_than)
    (\<lambda>(G, start, goal, pq, dst, prev, visited).
       (card ((cells G \<union> pq_node ` set pq) - visited), length pq))")
  show "wf (inv_image (less_than <*lex*> less_than)
    (\<lambda>(G, start, goal, pq, dst, prev, visited).
       (card ((cells G \<union> pq_node ` set pq) - visited), length pq)))"
    by (intro wf_inv_image wf_lex_prod wf_less_than)
next
  fix G :: grid and start goal :: pos and pq :: "(int \<times> pos) list" and dst :: "pos \<rightharpoonup> int"
    and prev :: "pos \<rightharpoonup> pos" and visited :: "pos set"
    and x :: "int \<times> pos" and y :: "(int \<times> pos) list" and d :: int and cur :: pos
  assume ne: "pq \<noteq> []" and pop: "(x, y) = heappop pq" and "(d, cur) = x"
    and "cur \<in> visited"
  have r: "y = remove1 x pq" and mem: "x \<in> set pq"
    using heappop_in [OF ne pop [symmetric]] by auto
  have "pq_node ` set y \<subseteq> pq_node ` set pq"
    using r set_remove1_subset [of x pq] by auto
  then have "(cells G \<union> pq_node ` set y) - visited
      \<subseteq> (cells G \<union> pq_node ` set pq) - visited" by auto
  then have c: "card ((cells G \<union> pq_node ` set y) - visited)
      \<le> card ((cells G \<union> pq_node ` set pq) - visited)"
    by (intro card_mono) (auto simp: finite_cells)
  have "length y < length pq"
    using r mem by (simp add: length_remove1_less)
  with c show "((G, start, goal, y, dst, prev, visited),
       (G, start, goal, pq, dst, prev, visited))
      \<in> inv_image (less_than <*lex*> less_than)
        (\<lambda>(G, start, goal, pq, dst, prev, visited).
           (card ((cells G \<union> pq_node ` set pq) - visited), length pq))"
    by auto
next
  fix G :: grid and start goal :: pos and pq :: "(int \<times> pos) list" and dst :: "pos \<rightharpoonup> int"
    and prev :: "pos \<rightharpoonup> pos" and visited :: "pos set"
    and x :: "int \<times> pos" and y :: "(int \<times> pos) list" and d :: int and cur :: pos
    and visited1 and xd :: "(pos \<rightharpoonup> int) \<times> (pos \<rightharpoonup> pos)" and pq2 dst2 prev2
  assume ne: "pq \<noteq> []" and pop: "(x, y) = heappop pq" and x: "(d, cur) = x"
    and nv: "cur \<notin> visited" and v1: "visited1 = insert cur visited" and "cur \<noteq> goal"
    and fd: "(pq2, xd) = fold (dijkstra_relax G cur d) DIRS (y, dst, prev)"
    and xd: "(dst2, prev2) = xd"
  have r: "y = remove1 x pq" and mem: "x \<in> set pq"
    using heappop_in [OF ne pop [symmetric]] by auto
  have cur: "cur = pq_node x" using x by (auto simp: pq_node_def)
  have "pq_node ` set pq2 \<subseteq> pq_node ` set y \<union> cells G"
    using dijkstra_fold_nodes [of G cur d DIRS y dst prev pq2 dst2 prev2] fd xd by simp
  moreover have "pq_node ` set y \<subseteq> pq_node ` set pq"
    using r set_remove1_subset [of x pq] by auto
  ultimately have "(cells G \<union> pq_node ` set pq2) - visited1
      \<subseteq> ((cells G \<union> pq_node ` set pq) - visited) - {cur}"
    using v1 by auto
  moreover have "cur \<in> (cells G \<union> pq_node ` set pq) - visited"
    using mem cur nv by auto
  ultimately have "(cells G \<union> pq_node ` set pq2) - visited1
      \<subset> (cells G \<union> pq_node ` set pq) - visited" by blast
  then have "card ((cells G \<union> pq_node ` set pq2) - visited1)
      < card ((cells G \<union> pq_node ` set pq) - visited)"
    by (intro psubset_card_mono) (auto simp: finite_cells)
  then show "((G, start, goal, pq2, dst2, prev2, visited1),
       (G, start, goal, pq, dst, prev, visited))
      \<in> inv_image (less_than <*lex*> less_than)
        (\<lambda>(G, start, goal, pq, dst, prev, visited).
           (card ((cells G \<union> pq_node ` set pq) - visited), length pq))"
    by auto
qed

declare dijkstra_loop.simps [simp del]

text \<open>\<open>dijkstra(start, goal)\<close> on the grid \<open>G\<close>.\<close>

definition dijkstra :: "grid \<Rightarrow> pos \<Rightarrow> pos \<Rightarrow> pos list option" where
  "dijkstra G start goal =
     (if start = goal then Some [start]
      else dijkstra_loop G start goal
        (heappush [] (0, start), [start \<mapsto> 0], Map.empty, {}))"

section \<open>Frame builders\<close>

definition SERVICE_PAUSE_SEC :: int where "SERVICE_PAUSE_SEC = 4"
definition QUICK_CHECK_SEC :: int where "QUICK_CHECK_SEC = 1"
definition FPS :: int where "FPS = 8"

text \<open>\<open>[b] * max(1, int(dur * FPS))\<close>; the durations and the frame rate are integers, so
  \<open>int\<close> leaves the product as it is.\<close>

definition dwell :: "int \<Rightarrow> pos \<Rightarrow> pos list" where
  "dwell dur b = replicate (nat (max 1 (dur * FPS))) b"

text \<open>The frames are accumulated over the pairs \<open>zip(route[:-1], route[1:])\<close>; the loop has
  no result when a path search has none.\<close>

fun frames_loop ::
  "(pos \<times> pos \<Rightarrow> pos list option) \<Rightarrow> (pos \<times> pos) list \<Rightarrow> pos list \<Rightarrow> pos list option" where
  "frames_loop body [] frames = Some frames"
| "frames_loop body (ab # rest) frames =
     (case body ab of None \<Rightarrow> None | Some fs \<Rightarrow> frames_loop body rest (frames @ fs))"

text \<open>What one pass of the loop of \<open>build_path\<close> (single-floor script) adds to the frames.\<close>

definition build_path_segment ::
  "grid \<Rightarrow> pos list \<Rightarrow> pos option \<Rightarrow> string \<Rightarrow> (grid \<Rightarrow> pos \<Rightarrow> pos \<Rightarrow> pos list option)
     \<Rightarrow> pos \<times> pos \<Rightarrow> pos list option" where
  "build_path_segment G DUE_POINTS END_POS mode pf = (\<lambda>(a, b).
     case pf G a b of
       None \<Rightarrow> None
     | Some seg \<Rightarrow> Some
         (if length seg \<le> 1 then []
          else tl seg @
            (if END_POS = None \<or> Some b \<noteq> END_POS then
               (if mode = ''nn'' then
                  (if b \<in> set DUE_POINTS then dwell SERVICE_PAUSE_SEC b else [])
                else if mode = ''patrol'' then
                  (let is_due = b \<in> set DUE_POINTS;
                       dur = (if is_due then SERVICE_PAUSE_SEC else QUICK_CHECK_SEC)
                   in dwell dur b)
                else [])
             else [])))"

definition build_path ::
  "grid \<Rightarrow> pos list \<Rightarrow> pos option \<Rightarrow> pos list \<Rightarrow> string \<Rightarrow> string \<Rightarrow> pos list option" where
  "build_path G DUE_POINTS END_POS route mode pathfinder =
     (if length route < 2 then Some []
      else let pf = (if pathfinder = ''astar'' then astar else dijkstra)
           in frames_loop (build_path_segment G DUE_POINTS END_POS mode pf)
                (zip (butlast route) (tl route)) [])"

text \<open>What one pass of the loop of \<open>build_frames\<close> (multi-floor script) adds to the frames.\<close>

definition build_frames_segment ::
  "grid \<Rightarrow> pos set \<Rightarrow> string \<Rightarrow> pos \<times> pos \<Rightarrow> pos list option" where
  "build_frames_segment G due_set mode = (\<lambda>(a, b).
     case astar G a b of
       None \<Rightarrow> None
     | Some seg \<Rightarrow> Some
         (if length seg \<le> 1 then []
          else tl seg @
            (if b \<in> due_set then dwell SERVICE_PAUSE_SEC b
             else if mode = ''patrol'' then dwell QUICK_CHECK_SEC b
             else [])))"

definition build_frames ::
  "grid \<Rightarrow> pos list \<Rightarrow> cluster list \<Rightarrow> (string \<rightharpoonup> real) \<Rightarrow> real \<Rightarrow> string
     \<Rightarrow> pos list option" where
  "build_frames G route cs pct_by_cluster threshold_pct mode =
     (if length route < 2 then Some []
      else let due_set = set (due_points pct_by_cluster threshold_pct cs)
           in frames_loop (build_frames_segment G due_set mode)
                (zip (butlast route) (tl route)) [])"

section \<open>Specification of the nearest-due order\<close>

text \<open>
  The greedy order in words: the sequence is empty when no point remains; otherwise its
  first waypoint is a remaining point at minimal Manhattan distance from the current
  position, every remaining point listed before it is strictly farther (the first one wins
  a tie), and the rest of the sequence is the greedy order from that waypoint over the
  remaining points without it.
\<close>

fun nearest_due_order :: "pos \<Rightarrow> pos list \<Rightarrow> pos list \<Rightarrow> bool" where
  "nearest_due_order cur remaining [] \<longleftrightarrow> remaining = []"
| "nearest_due_order cur remaining (nxt # rest) \<longleftrightarrow>
     nxt \<in> set remaining
     \<and> (\<forall>p \<in> set remaining. manhattan nxt cur \<le> manhattan p cur)
     \<and> (\<forall>p \<in> set (takeWhile (\<lambda>p. p \<noteq> nxt) remaining). manhattan nxt cur < manhattan p cur)
     \<and> nearest_due_order nxt (remove1 nxt remaining) rest"

text \<open>The optional last waypoint of a route.\<close>

definition end_waypoint :: "pos option \<Rightarrow> pos list" where
  "end_waypoint END_POS = (case END_POS of None \<Rightarrow> [] | Some e \<Rightarrow> [e])"

section \<open>The configuration of the single-floor script\<close>

text \<open>The five clusters of the ground floor, with \<open>GRID_W = 35\<close> substituted, and the fill
  percentages of the script.\<close>

definition CLUSTERS :: "cluster list" where
  "CLUSTERS =
     [\<lparr>name = ''top_left_row'', bins = [(2,5),(3,5),(4,5)], service = (3,6), zone = ''koperasi''\<rparr>,
      \<lparr>name = ''top_right_col'', bins = [(23,3),(23,4),(23,5)], service = (22,4), zone = ''kantin''\<rparr>,
      \<lparr>name = ''bottom_left_col'', bins = [(1,15),(1,16),(1,17)], service = (2,16), zone = ''bottom_left''\<rparr>,
      \<lparr>name = ''bottom_mid_row'', bins = [(16,19),(17,19),(18,19)], service = (17,18), zone = ''bottom_center''\<rparr>,
      \<lparr>name = ''bottom_right_col'', bins = [(33,15),(33,16),(33,17)], service = (32,16), zone = ''bottom_right''\<rparr>]"

definition PCT_BY_CLUSTER :: "string \<rightharpoonup> real" where
  "PCT_BY_CLUSTER = [''top_left_row'' \<mapsto> 83, ''top_right_col'' \<mapsto> 55, ''bottom_left_col'' \<mapsto> 92,
                     ''bottom_mid_row'' \<mapsto> 48, ''bottom_right_col'' \<mapsto> 88]"

section \<open>Paths and reachability\<close>

text \<open>A cell is passable when it is inside the grid and not blocked.\<close>

definition free :: "grid \<Rightarrow> pos \<Rightarrow> bool" where
  "free G p \<longleftrightarrow> in_bounds G p \<and> \<not> blocked G p"

text \<open>Two positions are axis-adjacent when they differ by one in exactly one coordinate.\<close>

definition adjacent :: "pos \<Rightarrow> pos \<Rightarrow> bool" where
  "adjacent p q \<longleftrightarrow> \<bar>fst p - fst q\<bar> + \<bar>snd p - snd q\<bar> = 1"

text \<open>A sequence of positions moves legally when every step goes to an axis-adjacent
  passable cell; the first position is where the agent stands and is not tested.\<close>

fun moves_ok :: "grid \<Rightarrow> pos list \<Rightarrow> bool" where
  "moves_ok G [] = True"
| "moves_ok G [p] = True"
| "moves_ok G (p # q # rest) = (adjacent p q \<and> free G q \<and> moves_ok G (q # rest))"

text \<open>A path from \<open>start\<close> to \<open>goal\<close>.\<close>

definition path_between :: "grid \<Rightarrow> pos \<Rightarrow> pos \<Rightarrow> pos list \<Rightarrow> bool" where
  "path_between G start goal p \<longleftrightarrow> p \<noteq> [] \<and> hd p = start \<and> last p = goal \<and> moves_ok G p"

text \<open>A floor with one fixture: the 3 by 3 block of cells with corner \<open>(4, 4)\<close>.\<close>

definition walled_floor :: grid where
  "walled_floor = block_rect empty_floor 4 4 3 3"

section \<open>Grid mutation\<close>

lemma block_cell_dims [simp]:
  "GRID_W (block_cell p G) = GRID_W G" "GRID_H (block_cell p G) = GRID_H G"
  by (simp_all add: block_cell_def)

lemma in_bounds_block_cell [simp]: "in_bounds (block_cell p G) q = in_bounds G q"
  by (simp add: in_bounds_def)

lemma in_bounds_blocked_update [simp]: "in_bounds (G\<lparr>blocked := f\<rparr>) p = in_bounds G p"
  by (simp add: in_bounds_def)

lemma fold_block_cell:
  "fold block_cell qs G =
     G\<lparr>blocked := (\<lambda>p. blocked G p \<or> (p \<in> set qs \<and> in_bounds G p))\<rparr>"
proof (induction qs arbitrary: G)
  case Nil
  show ?case by simp
next
  case (Cons q qs)
  have "fold block_cell (q # qs) G = fold block_cell qs (block_cell q G)" by simp
  also have "\<dots> = (block_cell q G)\<lparr>blocked := (\<lambda>p. blocked (block_cell q G) p
      \<or> (p \<in> set qs \<and> in_bounds (block_cell q G) p))\<rparr>" by (rule Cons.IH)
  also have "\<dots> = G\<lparr>blocked := (\<lambda>p. blocked G p \<or> (p \<in> set (q # qs) \<and> in_bounds G p))\<rparr>"
  proof (cases "in_bounds G q")
    case True
    have "(\<lambda>p. ((blocked G)(q := True)) p \<or> (p \<in> set qs \<and> in_bounds G p))
        = (\<lambda>p. blocked G p \<or> (p \<in> set (q # qs) \<and> in_bounds G p))"
      using True by (auto simp: fun_eq_iff)
    then show ?thesis using True by (simp add: block_cell_def)
  next
    case False
    have "(\<lambda>p. blocked G p \<or> (p \<in> set qs \<and> in_bounds G p))
        = (\<lambda>p. blocked G p \<or> (p \<in> set (q # qs) \<and> in_bounds G p))"
      using False by (auto simp: fun_eq_iff)
    then show ?thesis using False by (simp add: block_cell_def)
  qed
  finally show ?case .
qed

lemma fold_rows:
  "fold (\<lambda>xx G'. fold (\<lambda>yy. block_cell (xx, yy)) ys G') xs G =
     fold block_cell (concat (map (\<lambda>xx. map (\<lambda>yy. (xx, yy)) ys) xs)) G"
proof (induction xs arbitrary: G)
  case Nil
  show ?case by simp
next
  case (Cons x xs)
  have "fold (\<lambda>yy. block_cell (x, yy)) ys G = fold block_cell (map (\<lambda>yy. (x, yy)) ys) G"
    by (simp add: fold_map comp_def)
  then show ?case using Cons.IH by simp
qed

lemma block_rect_eq:
  "block_rect G x y w h =
     G\<lparr>blocked := (\<lambda>p. blocked G p \<or> (p \<in> rect_cells x y w h \<and> in_bounds G p))\<rparr>"
proof -
  have "set (concat (map (\<lambda>xx. map (\<lambda>yy. (xx, yy)) [y..y + h - 1]) [x..x + w - 1]))
      = rect_cells x y w h"
    by (auto simp: rect_cells_def)
  then show ?thesis
    unfolding block_rect_def fold_rows fold_block_cell by simp
qed



lemma empty_floor_simps [simp]:
  "GRID_W empty_floor = 35" "GRID_H empty_floor = 20" "blocked empty_floor p = False"
  by (simp_all add: empty_floor_def)




section \<open>Path finding: the trivial query\<close>

text \<open>
  Claim C6: for every position \<open>p\<close> (passable or not) and either algorithm, the path from
  \<open>p\<close> to \<open>p\<close> is exactly \<open>[p]\<close>; the result is returned before any search state is built,
  whatever the grid.
\<close>

theorem findPath_same_position:
  "astar G p p = Some [p] \<and> dijkstra G p p = Some [p]"
  by (simp add: astar_def dijkstra_def)

section \<open>Route strategies: results\<close>

lemma min_from_split:
  "\<exists>pre post. b # xs = pre @ min_from k b xs # post
     \<and> (\<forall>p \<in> set pre. k (min_from k b xs) < k p)
     \<and> (\<forall>p \<in> set post. k (min_from k b xs) \<le> k p)"
proof (induction xs arbitrary: b rule: rev_induct)
  case Nil
  show ?case by (intro exI [of _ "[]"]) simp
next
  case (snoc x xs)
  have step: "min_from k b (xs @ [x]) =
      (if k x < k (min_from k b xs) then x else min_from k b xs)"
  proof (induction xs arbitrary: b)
    case Nil show ?case by simp
  next
    case (Cons y ys) then show ?case by simp
  qed
  obtain pre post where sp: "b # xs = pre @ min_from k b xs # post"
    and lt: "\<forall>p \<in> set pre. k (min_from k b xs) < k p"
    and le: "\<forall>p \<in> set post. k (min_from k b xs) \<le> k p"
    using snoc.IH by blast
  show ?case
  proof (cases "k x < k (min_from k b xs)")
    case True
    have "b # xs @ [x] = (b # xs) @ min_from k b (xs @ [x]) # []"
      using True step by simp
    moreover have "\<forall>p \<in> set (b # xs). k (min_from k b (xs @ [x])) < k p"
    proof
      fix p assume "p \<in> set (b # xs)"
      then have "p \<in> set pre \<or> p = min_from k b xs \<or> p \<in> set post"
        using sp by (metis Un_iff set_ConsD set_append)
      then have "k (min_from k b xs) \<le> k p" using lt le by auto
      then show "k (min_from k b (xs @ [x])) < k p" using True step by simp
    qed
    ultimately show ?thesis by (metis empty_iff list.set(1))
  next
    case False
    have "b # xs @ [x] = pre @ min_from k b (xs @ [x]) # (post @ [x])"
      using False step sp by simp
    moreover have "\<forall>p \<in> set pre. k (min_from k b (xs @ [x])) < k p"
      using False step lt by simp
    moreover have "\<forall>p \<in> set (post @ [x]). k (min_from k b (xs @ [x])) \<le> k p"
      using False step le by auto
    ultimately show ?thesis by blast
  qed
qed

lemma py_min_split:
  assumes "xs \<noteq> []"
  shows "\<exists>pre post. xs = pre @ py_min k xs # post
     \<and> (\<forall>p \<in> set pre. k (py_min k xs) < k p)
     \<and> (\<forall>p \<in> set post. k (py_min k xs) \<le> k p)
     \<and> remove1 (py_min k xs) xs = pre @ post"
proof -
  obtain y ys where xs: "xs = y # ys" using assms by (cases xs) auto
  then have m: "py_min k xs = min_from k y ys" by (simp add: py_min_def)
  obtain pre post where sp: "xs = pre @ py_min k xs # post"
    and lt: "\<forall>p \<in> set pre. k (py_min k xs) < k p"
    and le: "\<forall>p \<in> set post. k (py_min k xs) \<le> k p"
    using min_from_split [of y ys k] xs m by auto
  have "py_min k xs \<notin> set pre" using lt by auto
  then have "remove1 (py_min k xs) xs = pre @ post"
    using sp by (metis remove1.simps(2) remove1_append)
  with sp lt le show ?thesis by blast
qed

lemma nn_loop_greedy:
  "\<exists>mid. nn_loop cur route remaining = route @ mid
     \<and> nearest_due_order cur remaining mid \<and> mset mid = mset remaining"
proof (induction cur route remaining rule: nn_loop.induct)
  case (1 cur route remaining)
  show ?case
  proof (cases "remaining = []")
    case True
    then show ?thesis by (simp add: nn_loop.simps)
  next
    case False
    define nxt where "nxt = py_min (\<lambda>p. \<bar>fst p - fst cur\<bar> + \<bar>snd p - snd cur\<bar>) remaining"
    have k: "(\<lambda>p. \<bar>fst p - fst cur\<bar> + \<bar>snd p - snd cur\<bar>) = (\<lambda>p. manhattan p cur)"
      by (simp add: manhattan_def)
    obtain pre post where sp: "remaining = pre @ nxt # post"
      and lt: "\<forall>p \<in> set pre. manhattan nxt cur < manhattan p cur"
      and le: "\<forall>p \<in> set post. manhattan nxt cur \<le> manhattan p cur"
      and rm: "remove1 nxt remaining = pre @ post"
      using py_min_split [OF False, of "\<lambda>p. manhattan p cur"] unfolding nxt_def k by blast
    obtain mid where mid: "nn_loop nxt (route @ [nxt]) (remove1 nxt remaining) = (route @ [nxt]) @ mid"
      and g: "nearest_due_order nxt (remove1 nxt remaining) mid"
      and ms: "mset mid = mset (remove1 nxt remaining)"
      using 1 [OF False nxt_def] by blast
    have "nn_loop cur route remaining = route @ (nxt # mid)"
      using False mid by (subst nn_loop.simps) (simp add: nxt_def Let_def)
    moreover have "nearest_due_order cur remaining (nxt # mid)"
    proof -
      have "nxt \<notin> set pre" using lt by auto
      then have "takeWhile (\<lambda>p. p \<noteq> nxt) (pre @ nxt # post) = pre"
        by (subst takeWhile_append2) auto
      moreover have "\<forall>p \<in> set (pre @ nxt # post). manhattan nxt cur \<le> manhattan p cur"
        using lt le by auto
      ultimately show ?thesis using lt g unfolding sp by simp
    qed
    moreover have "mset (nxt # mid) = mset remaining"
      using ms rm sp by simp
    ultimately show ?thesis by blast
  qed
qed

lemma due_points_member:
  "p \<in> set (due_points pbc thr cs) \<longleftrightarrow>
     (\<exists>c \<in> set cs. service c = p \<and> pct_fill pbc c \<ge> thr)"
  by (auto simp: due_points_def)

text \<open>
  Claim C3: the Nearest-Due route is the start, then the DUE service positions in the greedy
  nearest-first order (the first listed wins a tie, each chosen point leaves the remaining
  ones), then the end when one is configured. Its intermediate waypoints are the DUE points
  as a multiset, so each DUE cluster is visited exactly once (and each position once when
  the DUE positions are distinct), every intermediate waypoint is the service position of a
  DUE cluster, and the length is \<open>|DUE| + 1\<close>, plus one when an end is configured. The
  multi-floor \<open>build_routes\<close> in mode \<open>nn\<close> gives the same route.
\<close>

theorem nearest_due_route:
  fixes cs :: "cluster list" and pbc :: "string \<rightharpoonup> real" and thr :: real
  defines "due \<equiv> due_points pbc thr cs"
  shows "\<exists>mid. build_route_nn due start END_POS = [start] @ mid @ end_waypoint END_POS
     \<and> nearest_due_order start due mid
     \<and> mset mid = mset due
     \<and> (distinct due \<longrightarrow> distinct mid)
     \<and> (\<forall>p \<in> set mid. \<exists>c \<in> set cs. service c = p \<and> pct_fill pbc c \<ge> thr)
     \<and> int (length (build_route_nn due start END_POS))
         = int (length due) + 1 + (if END_POS = None then 0 else 1)
     \<and> fst (build_routes cs pbc thr start END_POS ''nn'') = build_route_nn due start END_POS"
proof -
  obtain mid where mid: "nn_loop start [start] due = [start] @ mid"
    and g: "nearest_due_order start due mid" and ms: "mset mid = mset due"
    using nn_loop_greedy [of start "[start]" due] by blast
  have r: "build_route_nn due start END_POS = [start] @ mid @ end_waypoint END_POS"
    using mid by (cases END_POS) (simp_all add: build_route_nn_def end_waypoint_def)
  have d: "distinct due \<longrightarrow> distinct mid"
    using ms by (metis mset_eq_imp_distinct_iff)
  have s: "set mid = set due" using ms by (metis mset_eq_setD)
  have m: "\<forall>p \<in> set mid. \<exists>c \<in> set cs. service c = p \<and> pct_fill pbc c \<ge> thr"
    using s due_points_member [of _ pbc thr cs] unfolding due_def by blast
  have l: "length mid = length due" using ms by (metis mset_eq_length)
  have len: "int (length (build_route_nn due start END_POS))
         = int (length due) + 1 + (if END_POS = None then 0 else 1)"
    unfolding r using l by (cases END_POS) (simp_all add: end_waypoint_def)
  have br: "fst (build_routes cs pbc thr start END_POS ''nn'') = build_route_nn due start END_POS"
    by (simp add: build_routes_def due_def Let_def)
  from r g ms d m len br show ?thesis by blast
qed


lemma due_example: "due_points PCT_BY_CLUSTER 80 CLUSTERS = [(3,6),(2,16),(32,16)]"
  by (simp add: due_points_def CLUSTERS_def PCT_BY_CLUSTER_def pct_fill_def dict_get_def)

text \<open>On the script's own clusters and fill percentages the DUE points are those of the
  clusters at 83, 92 and 88 percent, and the route visits them nearest first.\<close>

lemma nearest_due_example:
  "build_route_nn [(3,6), (2,16), (32,16)] (1,19) (Some (1,19))
     = [(1,19), (2,16), (3,6), (32,16), (1,19)]"
  by (simp add: build_route_nn_def nn_loop.simps py_min_def)

theorem nearest_due_route_witness:
  "due_points PCT_BY_CLUSTER 80 CLUSTERS = [(3,6), (2,16), (32,16)]
   \<and> build_route_nn (due_points PCT_BY_CLUSTER 80 CLUSTERS) (1,19) (Some (1,19))
       = [(1,19), (2,16), (3,6), (32,16), (1,19)]
   \<and> nearest_due_order (1,19) [(3,6), (2,16), (32,16)] [(2,16), (3,6), (32,16)]
   \<and> mset [(2,16), (3,6), (32,16)] = mset [(3,6), (2,16), (32,16) :: pos]
   \<and> distinct [(2,16), (3,6), (32,16) :: pos]"
proof -
  obtain mid where mid: "build_route_nn [(3,6), (2,16), (32,16)] (1,19) (Some (1,19))
        = [(1,19)] @ mid @ end_waypoint (Some (1,19))"
      "nearest_due_order (1,19) [(3,6), (2,16), (32,16)] mid"
      "mset mid = mset [(3,6), (2,16), (32,16)]"
      "distinct [(3,6), (2,16), (32,16) :: pos] \<longrightarrow> distinct mid"
    using nearest_due_route [of PCT_BY_CLUSTER 80 CLUSTERS "(1,19)" "Some (1,19)"]
    unfolding due_example by blast
  have "mid = [(2,16), (3,6), (32,16)]"
    using mid(1) unfolding nearest_due_example by (simp add: end_waypoint_def)
  then show ?thesis using mid due_example nearest_due_example by simp
qed

lemma nothing_due_example: "due_points Map.empty 80 CLUSTERS = []"
  by (simp add: due_points_def CLUSTERS_def pct_fill_def dict_get_def)

text \<open>
  Claim C8, as stated: with no DUE cluster the route is \<open>[start]\<close> when the end equals the
  start. It fails on the code: with the script's own round trip (\<open>END_POS = START_POS =
  (1, 19)\<close>) and no fill percentage reaching the threshold, the route is
  \<open>[(1, 19), (1, 19)]\<close>.
\<close>

theorem nothing_due_round_trip_counterexample:
  "due_points Map.empty 80 CLUSTERS = []
   \<and> build_route_nn (due_points Map.empty 80 CLUSTERS) (1,19) (Some (1,19)) = [(1,19), (1,19)]
   \<and> build_route_nn (due_points Map.empty 80 CLUSTERS) (1,19) (Some (1,19)) \<noteq> [(1,19)]"
  by (simp add: nothing_due_example build_route_nn_def nn_loop.simps)

text \<open>
  Claim C8, amended: with no DUE cluster the Nearest-Due route is \<open>[start, end]\<close> whenever an
  end is configured, also when the end equals the start, and \<open>[start]\<close> when none is.
\<close>

theorem nothing_due_route:
  assumes "due_points pbc thr cs = []"
  shows "build_route_nn (due_points pbc thr cs) start END_POS
           = (case END_POS of None \<Rightarrow> [start] | Some e \<Rightarrow> [start, e])
       \<and> fst (build_routes cs pbc thr start END_POS ''nn'')
           = (case END_POS of None \<Rightarrow> [start] | Some e \<Rightarrow> [start, e])"
  using assms
  by (cases END_POS) (simp_all add: build_routes_def build_route_nn_def nn_loop.simps Let_def)

text \<open>The three cases on the script's clusters with no fill percentage configured: a round
  trip, an end elsewhere, and no end.\<close>

theorem nothing_due_route_witness:
  "build_route_nn (due_points Map.empty 80 CLUSTERS) (1,19) (Some (1,19)) = [(1,19), (1,19)]
   \<and> build_route_nn (due_points Map.empty 80 CLUSTERS) (1,19) (Some (17,1)) = [(1,19), (17,1)]
   \<and> build_route_nn (due_points Map.empty 80 CLUSTERS) (1,19) None = [(1,19)]"
  using nothing_due_route [OF nothing_due_example, of "(1,19)" "Some (1,19)"]
    nothing_due_route [OF nothing_due_example, of "(1,19)" "Some (17,1)"]
    nothing_due_route [OF nothing_due_example, of "(1,19)" None]
  by simp









section \<open>Paths: basic facts\<close>

text \<open>For the proofs, paths are counted by their steps: \<open>reach G s n c\<close> says that the
  cell \<open>c\<close> is reached from \<open>s\<close> in \<open>n\<close> legal steps. It is the same as a path of
  \<open>n + 1\<close> positions from \<open>s\<close> to \<open>c\<close> (lemmas \<open>reach_path\<close> and \<open>path_reach\<close>).\<close>

inductive reach :: "grid \<Rightarrow> pos \<Rightarrow> nat \<Rightarrow> pos \<Rightarrow> bool" for G :: grid and s :: pos where
  reach_start: "reach G s 0 s"
| reach_step: "\<lbrakk>reach G s n c; adjacent c c'; free G c'\<rbrakk> \<Longrightarrow> reach G s (Suc n) c'"

lemma moves_ok_snoc:
  "\<lbrakk>moves_ok G xs; xs \<noteq> []; adjacent (last xs) v; free G v\<rbrakk> \<Longrightarrow> moves_ok G (xs @ [v])"
proof (induction G xs rule: moves_ok.induct)
  case (1 G) then show ?case by simp
next
  case (2 G p) then show ?case by simp
next
  case (3 G p q rest) then show ?case by simp
qed

lemma moves_ok_butlast: "moves_ok G (xs @ [v]) \<Longrightarrow> moves_ok G xs"
proof (induction G xs rule: moves_ok.induct)
  case (1 G) then show ?case by simp
next
  case (2 G p) then show ?case by simp
next
  case (3 G p q rest) then show ?case by simp
qed

lemma moves_ok_last_step:
  "\<lbrakk>moves_ok G (xs @ [v]); xs \<noteq> []\<rbrakk> \<Longrightarrow> adjacent (last xs) v \<and> free G v"
proof (induction G xs rule: moves_ok.induct)
  case (1 G) then show ?case by simp
next
  case (2 G p) then show ?case by simp
next
  case (3 G p q rest) then show ?case by simp
qed

lemma reach_path:
  "reach G s n c \<Longrightarrow> \<exists>p. path_between G s c p \<and> length p = Suc n"
proof (induction rule: reach.induct)
  case reach_start
  have "path_between G s s [s]" by (simp add: path_between_def)
  then show ?case by (intro exI [of _ "[s]"]) simp
next
  case (reach_step n c c')
  then obtain p where p: "path_between G s c p" and l: "length p = Suc n" by blast
  have "path_between G s c' (p @ [c'])"
    using p reach_step.hyps(2,3) moves_ok_snoc [of G p c']
    by (auto simp: path_between_def)
  then show ?case using l by (intro exI [of _ "p @ [c']"]) simp
qed

lemma path_reach:
  "path_between G s c p \<Longrightarrow> reach G s (length p - 1) c"
proof (induction p arbitrary: c rule: rev_induct)
  case Nil
  then show ?case by (simp add: path_between_def)
next
  case (snoc v xs)
  show ?case
  proof (cases "xs = []")
    case True
    then have "s = v" "c = v" using snoc.prems by (auto simp: path_between_def)
    then show ?thesis using True by (simp add: reach_start)
  next
    case False
    have c: "c = v" using snoc.prems by (simp add: path_between_def)
    have "path_between G s (last xs) xs"
      using snoc.prems False moves_ok_butlast [of G xs v] by (auto simp: path_between_def)
    then have r: "reach G s (length xs - 1) (last xs)" by (rule snoc.IH)
    have mo: "moves_ok G (xs @ [v])" using snoc.prems unfolding path_between_def by blast
    have "adjacent (last xs) v \<and> free G v"
      by (rule moves_ok_last_step [OF mo False])
    then have "reach G s (Suc (length xs - 1)) v" using r reach_step by blast
    then show ?thesis using c False by (cases xs) simp_all
  qed
qed

lemma adjacent_sym: "adjacent p q \<Longrightarrow> adjacent q p"
  by (auto simp: adjacent_def)

lemma manhattan_step: "adjacent v w \<Longrightarrow> manhattan v t \<le> manhattan w t + 1"
  by (auto simp: adjacent_def manhattan_def)

lemma adjacent_dirs:
  "adjacent c w \<longleftrightarrow> (\<exists>d \<in> set DIRS. w = (fst c + fst d, snd c + snd d))"
proof
  assume "adjacent c w"
  then have "w = (fst c + 1, snd c + 0) \<or> w = (fst c + (-1), snd c + 0)
      \<or> w = (fst c + 0, snd c + 1) \<or> w = (fst c + 0, snd c + (-1))"
    by (cases w) (auto simp: adjacent_def)
  then show "\<exists>d \<in> set DIRS. w = (fst c + fst d, snd c + snd d)"
    by (auto simp: DIRS_def)
next
  assume "\<exists>d \<in> set DIRS. w = (fst c + fst d, snd c + snd d)"
  then show "adjacent c w" by (auto simp: DIRS_def adjacent_def)
qed

lemma moves_ok_free:
  "\<lbrakk>moves_ok G p\<rbrakk> \<Longrightarrow> \<forall>c \<in> set (tl p). free G c"
proof (induction G p rule: moves_ok.induct)
  case (1 G) then show ?case by simp
next
  case (2 G p) then show ?case by simp
next
  case (3 G p q rest) then show ?case by simp
qed

section \<open>The A* search: invariant\<close>

text \<open>
  The invariant of the \<open>while openh\<close> loop, for the start \<open>s\<close> and the goal \<open>t\<close>.
  Every queued entry \<open>(f, g, c, parent)\<close> has \<open>f = g + h(c)\<close>, a cost \<open>g\<close> that is the
  number of steps of some walk from \<open>s\<close> to \<open>c\<close> and is not below \<open>gscore[c]\<close>, and a
  parent that is \<open>None\<close> for the start or a visited neighbour whose score is \<open>g - 1\<close>
  (\<open>entries_ok\<close>). Every score is the length of a walk, and a cell with a score that is not
  visited yet is queued with that score (\<open>scores_ok\<close>). Every visited cell has its final
  score, the least number of steps from \<open>s\<close>, and its \<open>came\<close> entry is \<open>None\<close> for the start or
  a visited neighbour one step closer (\<open>visited_ok\<close>). Every passable neighbour of an
  expanded cell has a score at most one above (\<open>closed_ok\<close>).
\<close>

definition entries_ok ::
  "grid \<Rightarrow> pos \<Rightarrow> pos \<Rightarrow> (pos \<rightharpoonup> int) \<Rightarrow> pos set \<Rightarrow> entry list \<Rightarrow> bool" where
  "entries_ok G s t gscore visited openh \<longleftrightarrow>
     (\<forall>f g c par. (f, g, c, par) \<in> set openh \<longrightarrow>
        f = g + manhattan c t \<and> (\<exists>g'. gscore c = Some g' \<and> g' \<le> g)
        \<and> (\<exists>n. g = int n \<and> reach G s n c)
        \<and> (case par of None \<Rightarrow> c = s \<and> g = 0
            | Some p \<Rightarrow> p \<in> visited \<and> adjacent p c \<and> free G c \<and> gscore p = Some (g - 1)))"

definition scores_ok ::
  "grid \<Rightarrow> pos \<Rightarrow> pos \<Rightarrow> (pos \<rightharpoonup> int) \<Rightarrow> pos set \<Rightarrow> entry list \<Rightarrow> bool" where
  "scores_ok G s t gscore visited openh \<longleftrightarrow>
     (\<forall>c g'. gscore c = Some g' \<longrightarrow>
        (\<exists>n. g' = int n \<and> reach G s n c)
        \<and> (c \<notin> visited \<longrightarrow> (\<exists>par. (g' + manhattan c t, g', c, par) \<in> set openh)))"

definition visited_ok ::
  "grid \<Rightarrow> pos \<Rightarrow> (pos \<rightharpoonup> pos option) \<Rightarrow> (pos \<rightharpoonup> int) \<Rightarrow> pos set \<Rightarrow> bool" where
  "visited_ok G s came gscore visited \<longleftrightarrow>
     (\<forall>v \<in> visited. \<exists>n. gscore v = Some (int n) \<and> reach G s n v
        \<and> (\<forall>m. reach G s m v \<longrightarrow> n \<le> m)
        \<and> (case came v of None \<Rightarrow> False
            | Some None \<Rightarrow> v = s \<and> n = 0
            | Some (Some p) \<Rightarrow> p \<in> visited \<and> adjacent p v \<and> free G v
                \<and> gscore p = Some (int n - 1)))"

definition closed_ok :: "grid \<Rightarrow> (pos \<rightharpoonup> int) \<Rightarrow> pos set \<Rightarrow> bool" where
  "closed_ok G gscore C \<longleftrightarrow>
     (\<forall>v \<in> C. \<forall>w. adjacent v w \<and> free G w \<longrightarrow>
        (\<exists>n g'. gscore v = Some n \<and> gscore w = Some g' \<and> g' \<le> n + 1))"

text \<open>No two queued entries agree on the cost and the cell.\<close>

definition keys_ok :: "entry list \<Rightarrow> bool" where
  "keys_ok openh \<longleftrightarrow> distinct (map (\<lambda>e. (fst (snd e), entry_node e)) openh)"

definition astar_inv ::
  "grid \<Rightarrow> pos \<Rightarrow> pos \<Rightarrow> pos set \<Rightarrow> entry list \<Rightarrow> (pos \<rightharpoonup> pos option) \<Rightarrow> (pos \<rightharpoonup> int)
     \<Rightarrow> pos set \<Rightarrow> bool" where
  "astar_inv G s t C openh came gscore visited \<longleftrightarrow>
     entries_ok G s t gscore visited openh \<and> scores_ok G s t gscore visited openh
     \<and> visited_ok G s came gscore visited \<and> closed_ok G gscore C
     \<and> gscore s = Some 0 \<and> C \<subseteq> visited \<and> keys_ok openh"

lemma astar_queue_keys:
  assumes "astar_inv G s t C openh came gscore visited"
    and "(f, g, c, par) \<in> set openh" and "(f', g, c, par') \<in> set openh"
  shows "f = f' \<and> par = par'"
proof -
  have "inj_on (\<lambda>e. (fst (snd e), entry_node e)) (set openh)"
    using assms(1) unfolding astar_inv_def keys_ok_def by (simp add: distinct_map)
  moreover have "(\<lambda>e. (fst (snd e), entry_node e)) (f, g, c, par)
      = (\<lambda>e. (fst (snd e), entry_node e)) (f', g, c, par')"
    by (simp add: entry_node_def)
  ultimately have "(f, g, c, par) = (f', g, c, par')"
    using assms(2,3) by (rule inj_onD)
  then show ?thesis by simp
qed

lemma astar_frontier:
  assumes sc: "scores_ok G s t gscore visited openh"
    and vi: "visited_ok G s came gscore visited"
    and cl: "closed_ok G gscore visited"
    and s0: "gscore s = Some 0"
    and r: "reach G s m v" and nv: "v \<notin> visited"
  shows "\<exists>f g u par. (f, g, u, par) \<in> set openh \<and> f \<le> int m + manhattan v t"
  using r nv
proof (induction rule: reach.induct)
  case reach_start
  obtain par where "(0 + manhattan s t, 0, s, par) \<in> set openh"
    using sc s0 reach_start unfolding scores_ok_def by blast
  then have "(0 + manhattan s t, 0, s, par) \<in> set openh
      \<and> 0 + manhattan s t \<le> int 0 + manhattan s t" by simp
  then show ?case by blast
next
  case (reach_step n c c')
  show ?case
  proof (cases "c \<in> visited")
    case True
    obtain k where k: "gscore c = Some (int k)" and kn: "k \<le> n"
      using vi True reach_step.hyps(1) unfolding visited_ok_def by blast
    obtain g' where g': "gscore c' = Some g'" and le: "g' \<le> int k + 1"
      using cl True reach_step.hyps(2,3) k unfolding closed_ok_def by fastforce
    obtain par where "(g' + manhattan c' t, g', c', par) \<in> set openh"
      using sc g' reach_step.prems unfolding scores_ok_def by blast
    moreover have "g' + manhattan c' t \<le> int (Suc n) + manhattan c' t"
      using le kn by simp
    ultimately show ?thesis by blast
  next
    case False
    obtain f g u par where e: "(f, g, u, par) \<in> set openh" and f: "f \<le> int n + manhattan c t"
      using reach_step.IH [OF False] by blast
    have "f \<le> int (Suc n) + manhattan c' t"
      using f manhattan_step [OF reach_step.hyps(2), of t] by simp
    with e show ?thesis by blast
  qed
qed

lemma distinct_map_remove1: "distinct (map f xs) \<Longrightarrow> distinct (map f (remove1 x xs))"
proof (induction xs)
  case Nil
  then show ?case by simp
next
  case (Cons a xs)
  have "f ` set (remove1 x xs) \<subseteq> f ` set xs" using set_remove1_subset [of x xs] by blast
  then show ?case using Cons by auto
qed

lemma keys_ok_remove1: "keys_ok openh \<Longrightarrow> keys_ok (remove1 e openh)"
  unfolding keys_ok_def by (rule distinct_map_remove1)

lemma prod_le_fst: "(a, b) \<le> (c, d) \<Longrightarrow> a \<le> (c :: 'a :: order)"
  by (auto simp: less_eq_prod_def)

lemma in_set_remove1_other: "\<lbrakk>y \<in> set xs; y \<noteq> x\<rbrakk> \<Longrightarrow> y \<in> set (remove1 x xs)"
  by simp

lemma astar_pop:
  assumes inv: "astar_inv G s t visited openh came gscore visited"
    and ne: "openh \<noteq> []" and pop: "heappop openh = ((f, g, cur, par), openh1)"
    and nv: "cur \<notin> visited"
  shows "astar_inv G s t visited openh1 (came(cur \<mapsto> par)) gscore (insert cur visited)"
    and "\<exists>n. g = int n \<and> gscore cur = Some g \<and> reach G s n cur
           \<and> (\<forall>m. reach G s m cur \<longrightarrow> n \<le> m)"
proof -
  have en: "entries_ok G s t gscore visited openh"
    and sc: "scores_ok G s t gscore visited openh"
    and vi: "visited_ok G s came gscore visited"
    and cl: "closed_ok G gscore visited"
    and s0: "gscore s = Some 0"
    using inv unfolding astar_inv_def by auto
  have mem: "(f, g, cur, par) \<in> set openh"
    and rest: "openh1 = remove1 (f, g, cur, par) openh"
    and least: "\<forall>e \<in> set openh. (f, g, cur, par) \<le> e"
    using heappop_in [OF ne pop] by auto
  have f: "f = g + manhattan cur t" using en mem unfolding entries_ok_def by blast
  obtain g' where g': "gscore cur = Some g'" and g'le: "g' \<le> g"
    using en mem unfolding entries_ok_def by blast
  obtain n where n: "g = int n" and rn: "reach G s n cur"
    using en mem unfolding entries_ok_def by blast
  have parc: "case par of None \<Rightarrow> cur = s \<and> g = 0
       | Some p \<Rightarrow> p \<in> visited \<and> adjacent p cur \<and> free G cur \<and> gscore p = Some (g - 1)"
    using en mem unfolding entries_ok_def by blast
  obtain par' where "(g' + manhattan cur t, g', cur, par') \<in> set openh"
    using sc g' nv unfolding scores_ok_def by blast
  then have "(f, g, cur, par) \<le> (g' + manhattan cur t, g', cur, par')" using least by blast
  then have "f \<le> g' + manhattan cur t" by (rule prod_le_fst)
  then have gg: "g = g'" using f g'le by simp
  have opt: "\<forall>m. reach G s m cur \<longrightarrow> n \<le> m"
  proof (intro allI impI)
    fix m assume "reach G s m cur"
    then obtain f' g'' u p'' where e: "(f', g'', u, p'') \<in> set openh"
      and le: "f' \<le> int m + manhattan cur t"
      using astar_frontier [OF sc vi cl s0 _ nv] by blast
    have "(f, g, cur, par) \<le> (f', g'', u, p'')" using least e by blast
    then have "f \<le> f'" by (rule prod_le_fst)
    then show "n \<le> m" using le f n by simp
  qed
  show "\<exists>n. g = int n \<and> gscore cur = Some g \<and> reach G s n cur
           \<and> (\<forall>m. reach G s m cur \<longrightarrow> n \<le> m)"
    using n g' gg rn opt by blast
  have sub: "set openh1 \<subseteq> set openh" using rest set_remove1_subset by metis
  have en': "entries_ok G s t gscore (insert cur visited) openh1"
    unfolding entries_ok_def
  proof (intro allI impI)
    fix f0 g0 c0 par0 assume "(f0, g0, c0, par0) \<in> set openh1"
    then have m0: "(f0, g0, c0, par0) \<in> set openh" using sub by blast
    have a: "f0 = g0 + manhattan c0 t" "\<exists>g'. gscore c0 = Some g' \<and> g' \<le> g0"
      "\<exists>n. g0 = int n \<and> reach G s n c0"
      using en m0 unfolding entries_ok_def by blast+
    have "case par0 of None \<Rightarrow> c0 = s \<and> g0 = 0
       | Some p \<Rightarrow> p \<in> visited \<and> adjacent p c0 \<and> free G c0 \<and> gscore p = Some (g0 - 1)"
      using en m0 unfolding entries_ok_def by blast
    then have "case par0 of None \<Rightarrow> c0 = s \<and> g0 = 0
       | Some p \<Rightarrow> p \<in> insert cur visited \<and> adjacent p c0 \<and> free G c0
           \<and> gscore p = Some (g0 - 1)"
      by (cases par0) auto
    with a show "f0 = g0 + manhattan c0 t \<and> (\<exists>g'. gscore c0 = Some g' \<and> g' \<le> g0)
        \<and> (\<exists>n. g0 = int n \<and> reach G s n c0)
        \<and> (case par0 of None \<Rightarrow> c0 = s \<and> g0 = 0
            | Some p \<Rightarrow> p \<in> insert cur visited \<and> adjacent p c0 \<and> free G c0
                \<and> gscore p = Some (g0 - 1))" by blast
  qed
  have sc': "scores_ok G s t gscore (insert cur visited) openh1"
    unfolding scores_ok_def
  proof (intro allI impI conjI)
    fix c g0 assume g0: "gscore c = Some g0"
    show "\<exists>n. g0 = int n \<and> reach G s n c" using sc g0 unfolding scores_ok_def by blast
    assume "c \<notin> insert cur visited"
    then have cc: "c \<noteq> cur" "c \<notin> visited" by auto
    then obtain p0 where m0: "(g0 + manhattan c t, g0, c, p0) \<in> set openh"
      using sc g0 unfolding scores_ok_def by blast
    have "(g0 + manhattan c t, g0, c, p0) \<noteq> (f, g, cur, par)" using cc by simp
    then have "(g0 + manhattan c t, g0, c, p0) \<in> set openh1"
      using m0 rest by simp
    then show "\<exists>par. (g0 + manhattan c t, g0, c, par) \<in> set openh1" by blast
  qed
  have vi': "visited_ok G s (came(cur \<mapsto> par)) gscore (insert cur visited)"
    unfolding visited_ok_def
  proof
    fix v assume v: "v \<in> insert cur visited"
    show "\<exists>n. gscore v = Some (int n) \<and> reach G s n v \<and> (\<forall>m. reach G s m v \<longrightarrow> n \<le> m)
        \<and> (case (came(cur \<mapsto> par)) v of None \<Rightarrow> False
            | Some None \<Rightarrow> v = s \<and> n = 0
            | Some (Some p) \<Rightarrow> p \<in> insert cur visited \<and> adjacent p v \<and> free G v
                \<and> gscore p = Some (int n - 1))"
    proof (cases "v = cur")
      case True
      have "case par of None \<Rightarrow> cur = s \<and> n = 0
          | Some p \<Rightarrow> p \<in> insert cur visited \<and> adjacent p cur \<and> free G cur
                \<and> gscore p = Some (int n - 1)"
        using parc n by (cases par) auto
      then show ?thesis unfolding True using g' gg n rn opt by (intro exI [of _ n]) simp
    next
      case False
      then have vv: "v \<in> visited" using v by simp
      then obtain k where k: "gscore v = Some (int k)" "reach G s k v"
        "\<forall>m. reach G s m v \<longrightarrow> k \<le> m"
        and kc: "case came v of None \<Rightarrow> False | Some None \<Rightarrow> v = s \<and> k = 0
            | Some (Some p) \<Rightarrow> p \<in> visited \<and> adjacent p v \<and> free G v
                \<and> gscore p = Some (int k - 1)"
        using vi unfolding visited_ok_def by blast
      have "case came v of None \<Rightarrow> False | Some None \<Rightarrow> v = s \<and> k = 0
            | Some (Some p) \<Rightarrow> p \<in> insert cur visited \<and> adjacent p v \<and> free G v
                \<and> gscore p = Some (int k - 1)"
        using kc by (auto split: option.splits)
      then show ?thesis using False k by (intro exI [of _ k]) simp
    qed
  qed
  have ky': "keys_ok openh1"
    using inv keys_ok_remove1 unfolding astar_inv_def rest by blast
  show "astar_inv G s t visited openh1 (came(cur \<mapsto> par)) gscore (insert cur visited)"
    unfolding astar_inv_def using en' sc' vi' cl s0 ky' by blast
qed

lemma astar_relax_cases:
  assumes "astar_relax G t cur g d (openh, gscore) = (openh', gscore')"
  shows "(openh' = openh \<and> gscore' = gscore
          \<and> (free G (fst cur + fst d, snd cur + snd d)
               \<longrightarrow> (\<exists>old. gscore (fst cur + fst d, snd cur + snd d) = Some old \<and> old \<le> g + 1)))
       \<or> (free G (fst cur + fst d, snd cur + snd d)
          \<and> (\<forall>old. gscore (fst cur + fst d, snd cur + snd d) = Some old \<longrightarrow> g + 1 < old)
          \<and> openh' = openh @ [(g + 1 + manhattan (fst cur + fst d, snd cur + snd d) t, g + 1,
                (fst cur + fst d, snd cur + snd d), Some cur)]
          \<and> gscore' = gscore((fst cur + fst d, snd cur + snd d) \<mapsto> g + 1))"
  using assms
  by (auto simp: astar_relax_def Let_def heappush_def free_def split: if_splits option.splits)

lemma astar_relax_inv:
  assumes inv: "astar_inv G s t C openh came gscore visited"
    and cv: "cur \<in> visited" and gc: "gscore cur = Some (int n)" and rn: "reach G s n cur"
    and d: "d \<in> set DIRS"
    and rel: "astar_relax G t cur (int n) d (openh, gscore) = (openh', gscore')"
  shows "astar_inv G s t C openh' came gscore' visited
    \<and> (\<forall>w g0. gscore w = Some g0 \<longrightarrow> (\<exists>g1. gscore' w = Some g1 \<and> g1 \<le> g0))
    \<and> (free G (fst cur + fst d, snd cur + snd d)
         \<longrightarrow> (\<exists>g1. gscore' (fst cur + fst d, snd cur + snd d) = Some g1 \<and> g1 \<le> int n + 1))
    \<and> gscore' cur = Some (int n)"
proof -
  define nb where "nb = (fst cur + fst d, snd cur + snd d)"
  have en: "entries_ok G s t gscore visited openh"
    and sc: "scores_ok G s t gscore visited openh"
    and vi: "visited_ok G s came gscore visited"
    and cl: "closed_ok G gscore C"
    and s0: "gscore s = Some 0" and cs: "C \<subseteq> visited"
    using inv unfolding astar_inv_def by auto
  consider (same) "openh' = openh" "gscore' = gscore"
      "free G nb \<longrightarrow> (\<exists>old. gscore nb = Some old \<and> old \<le> int n + 1)"
    | (better) "free G nb" "\<forall>old. gscore nb = Some old \<longrightarrow> int n + 1 < old"
      "openh' = openh @ [(int n + 1 + manhattan nb t, int n + 1, nb, Some cur)]"
      "gscore' = gscore(nb \<mapsto> int n + 1)"
    using astar_relax_cases [OF rel] unfolding nb_def by blast
  then show ?thesis
  proof cases
    case same
    then show ?thesis using inv gc unfolding nb_def [symmetric] by simp
  next
    case better
    have adj: "adjacent cur nb" using d adjacent_dirs [of cur nb] unfolding nb_def by blast
    have rnb: "reach G s (Suc n) nb" using rn adj better(1) by (rule reach_step)
    have nbv: "nb \<notin> visited"
    proof
      assume "nb \<in> visited"
      then obtain k where "gscore nb = Some (int k)" "\<forall>m. reach G s m nb \<longrightarrow> k \<le> m"
        using vi unfolding visited_ok_def by blast
      then have "int n + 1 < int k" "k \<le> Suc n" using better(2) rnb by auto
      then show False by simp
    qed
    have nbs: "nb \<noteq> s" using better(2) s0 by auto
    have nbc: "nb \<noteq> cur" using nbv cv by auto
    have keep: "\<And>w. w \<in> visited \<Longrightarrow> gscore' w = gscore w"
      using nbv better(4) by auto
    have mono: "\<forall>w g0. gscore w = Some g0 \<longrightarrow> (\<exists>g1. gscore' w = Some g1 \<and> g1 \<le> g0)"
    proof (intro allI impI)
      fix w g0 assume w: "gscore w = Some g0"
      show "\<exists>g1. gscore' w = Some g1 \<and> g1 \<le> g0"
      proof (cases "w = nb")
        case True
        then have "int n + 1 < g0" using better(2) w by simp
        then show ?thesis using True better(4) by simp
      next
        case False
        then show ?thesis using w better(4) by simp
      qed
    qed
    have en': "entries_ok G s t gscore' visited openh'"
      unfolding entries_ok_def
    proof (intro allI impI)
      fix f0 g0 c0 par0 assume "(f0, g0, c0, par0) \<in> set openh'"
      then consider (old) "(f0, g0, c0, par0) \<in> set openh"
        | (new) "f0 = int n + 1 + manhattan nb t" "g0 = int n + 1" "c0 = nb" "par0 = Some cur"
        using better(3) by auto
      then show "f0 = g0 + manhattan c0 t \<and> (\<exists>g'. gscore' c0 = Some g' \<and> g' \<le> g0)
        \<and> (\<exists>n. g0 = int n \<and> reach G s n c0)
        \<and> (case par0 of None \<Rightarrow> c0 = s \<and> g0 = 0
            | Some p \<Rightarrow> p \<in> visited \<and> adjacent p c0 \<and> free G c0
                \<and> gscore' p = Some (g0 - 1))"
      proof cases
        case old
        have a: "f0 = g0 + manhattan c0 t" "\<exists>n. g0 = int n \<and> reach G s n c0"
          using en old unfolding entries_ok_def by blast+
        obtain g' where "gscore c0 = Some g'" "g' \<le> g0"
          using en old unfolding entries_ok_def by blast
        then have b: "\<exists>g'. gscore' c0 = Some g' \<and> g' \<le> g0"
          using mono by (meson order_trans)
        have "case par0 of None \<Rightarrow> c0 = s \<and> g0 = 0
            | Some p \<Rightarrow> p \<in> visited \<and> adjacent p c0 \<and> free G c0
                \<and> gscore p = Some (g0 - 1)"
          using en old unfolding entries_ok_def by blast
        then have c: "case par0 of None \<Rightarrow> c0 = s \<and> g0 = 0
            | Some p \<Rightarrow> p \<in> visited \<and> adjacent p c0 \<and> free G c0
                \<and> gscore' p = Some (g0 - 1)"
          using keep by (cases par0) auto
        from a b c show ?thesis by blast
      next
        case new
        have "gscore' nb = Some (int n + 1)" using better(4) by simp
        moreover have "\<exists>k. int n + 1 = int k \<and> reach G s k nb"
          using rnb by (intro exI [of _ "Suc n"]) simp
        moreover have "gscore' cur = Some (int n)" using keep [OF cv] gc by simp
        ultimately show ?thesis
          using new cv adj better(1) by simp
      qed
    qed
    have sc': "scores_ok G s t gscore' visited openh'"
      unfolding scores_ok_def
    proof (intro allI impI)
      fix c g0 assume g0: "gscore' c = Some g0"
      show "(\<exists>n. g0 = int n \<and> reach G s n c)
        \<and> (c \<notin> visited \<longrightarrow> (\<exists>par. (g0 + manhattan c t, g0, c, par) \<in> set openh'))"
      proof (cases "c = nb")
        case True
        then have g0': "g0 = int n + 1" using g0 better(4) by simp
        have "(int n + 1 + manhattan nb t, int n + 1, nb, Some cur) \<in> set openh'"
          using better(3) by simp
        moreover have "\<exists>k. int n + 1 = int k \<and> reach G s k nb"
          using rnb by (intro exI [of _ "Suc n"]) simp
        ultimately show ?thesis unfolding True g0' by blast
      next
        case False
        then have "gscore c = Some g0" using g0 better(4) by simp
        then have "(\<exists>n. g0 = int n \<and> reach G s n c)
          \<and> (c \<notin> visited \<longrightarrow> (\<exists>par. (g0 + manhattan c t, g0, c, par) \<in> set openh))"
          using sc unfolding scores_ok_def by blast
        then show ?thesis using better(3) by auto
      qed
    qed
    have vi': "visited_ok G s came gscore' visited"
      unfolding visited_ok_def
    proof
      fix v assume v: "v \<in> visited"
      obtain k where k: "gscore v = Some (int k)" "reach G s k v"
        "\<forall>m. reach G s m v \<longrightarrow> k \<le> m"
        and kc: "case came v of None \<Rightarrow> False | Some None \<Rightarrow> v = s \<and> k = 0
            | Some (Some p) \<Rightarrow> p \<in> visited \<and> adjacent p v \<and> free G v
                \<and> gscore p = Some (int k - 1)"
        using vi v unfolding visited_ok_def by blast
      have "case came v of None \<Rightarrow> False | Some None \<Rightarrow> v = s \<and> k = 0
            | Some (Some p) \<Rightarrow> p \<in> visited \<and> adjacent p v \<and> free G v
                \<and> gscore' p = Some (int k - 1)"
        using kc keep by (auto split: option.splits)
      then show "\<exists>n. gscore' v = Some (int n) \<and> reach G s n v
        \<and> (\<forall>m. reach G s m v \<longrightarrow> n \<le> m)
        \<and> (case came v of None \<Rightarrow> False | Some None \<Rightarrow> v = s \<and> n = 0
            | Some (Some p) \<Rightarrow> p \<in> visited \<and> adjacent p v \<and> free G v
                \<and> gscore' p = Some (int n - 1))"
        using k keep [OF v] by (intro exI [of _ k]) simp
    qed
    have cl': "closed_ok G gscore' C"
      unfolding closed_ok_def
    proof (intro ballI allI impI)
      fix v w assume v: "v \<in> C" and w: "adjacent v w \<and> free G w"
      obtain k g' where "gscore v = Some k" "gscore w = Some g'" "g' \<le> k + 1"
        using cl v w unfolding closed_ok_def by blast
      moreover have "gscore' v = gscore v" using keep v cs by blast
      ultimately show "\<exists>n g'. gscore' v = Some n \<and> gscore' w = Some g' \<and> g' \<le> n + 1"
        using mono by (metis order_trans)
    qed
    have s0': "gscore' s = Some 0" using s0 nbs better(4) by simp
    have ky': "keys_ok openh'"
    proof -
      have ky: "keys_ok openh" using inv unfolding astar_inv_def by blast
      have "(int n + 1, nb) \<notin> (\<lambda>e. (fst (snd e), entry_node e)) ` set openh"
      proof
        assume "(int n + 1, nb) \<in> (\<lambda>e. (fst (snd e), entry_node e)) ` set openh"
        then obtain f0 par0 where "(f0, int n + 1, nb, par0) \<in> set openh"
          by (auto simp: entry_node_def)
        then obtain g' where "gscore nb = Some g'" "g' \<le> int n + 1"
          using en unfolding entries_ok_def by blast
        then show False using better(2) by auto
      qed
      then show ?thesis using ky better(3) unfolding keys_ok_def by (simp add: entry_node_def)
    qed
    have "astar_inv G s t C openh' came gscore' visited"
      unfolding astar_inv_def using en' sc' vi' cl' s0' cs ky' by blast
    moreover have "gscore' nb = Some (int n + 1)" using better(4) by simp
    moreover have "gscore' cur = Some (int n)" using keep [OF cv] gc by simp
    ultimately show ?thesis using mono unfolding nb_def [symmetric] by simp
  qed
qed

lemma astar_fold_inv:
  assumes ds: "set ds \<subseteq> set DIRS"
    and inv: "astar_inv G s t C openh came gscore visited"
    and cv: "cur \<in> visited" and gc: "gscore cur = Some (int n)" and rn: "reach G s n cur"
    and fd: "fold (astar_relax G t cur (int n)) ds (openh, gscore) = (openh', gscore')"
  shows "astar_inv G s t C openh' came gscore' visited
    \<and> (\<forall>w g0. gscore w = Some g0 \<longrightarrow> (\<exists>g1. gscore' w = Some g1 \<and> g1 \<le> g0))
    \<and> (\<forall>d \<in> set ds. free G (fst cur + fst d, snd cur + snd d)
         \<longrightarrow> (\<exists>g1. gscore' (fst cur + fst d, snd cur + snd d) = Some g1 \<and> g1 \<le> int n + 1))
    \<and> gscore' cur = Some (int n)"
  using ds inv gc fd
proof (induction ds arbitrary: openh gscore)
  case Nil
  then show ?case by simp
next
  case (Cons d ds)
  obtain o1 g1 where r1: "astar_relax G t cur (int n) d (openh, gscore) = (o1, g1)"
    by (cases "astar_relax G t cur (int n) d (openh, gscore)")
  have d: "d \<in> set DIRS" and ds: "set ds \<subseteq> set DIRS" using Cons.prems(1) by auto
  have step: "astar_inv G s t C o1 came g1 visited
    \<and> (\<forall>w g0. gscore w = Some g0 \<longrightarrow> (\<exists>g2. g1 w = Some g2 \<and> g2 \<le> g0))
    \<and> (free G (fst cur + fst d, snd cur + snd d)
         \<longrightarrow> (\<exists>g2. g1 (fst cur + fst d, snd cur + snd d) = Some g2 \<and> g2 \<le> int n + 1))
    \<and> g1 cur = Some (int n)"
    by (rule astar_relax_inv [OF Cons.prems(2) cv Cons.prems(3) rn d r1])
  have fd': "fold (astar_relax G t cur (int n)) ds (o1, g1) = (openh', gscore')"
    using Cons.prems(4) r1 by simp
  have rest: "astar_inv G s t C openh' came gscore' visited
    \<and> (\<forall>w g0. g1 w = Some g0 \<longrightarrow> (\<exists>g2. gscore' w = Some g2 \<and> g2 \<le> g0))
    \<and> (\<forall>d \<in> set ds. free G (fst cur + fst d, snd cur + snd d)
         \<longrightarrow> (\<exists>g2. gscore' (fst cur + fst d, snd cur + snd d) = Some g2 \<and> g2 \<le> int n + 1))
    \<and> gscore' cur = Some (int n)"
    using Cons.IH [OF ds _ _ fd'] step by blast
  have mono: "\<forall>w g0. gscore w = Some g0 \<longrightarrow> (\<exists>g2. gscore' w = Some g2 \<and> g2 \<le> g0)"
    using step rest by (meson order_trans)
  have here: "free G (fst cur + fst d, snd cur + snd d)
         \<longrightarrow> (\<exists>g2. gscore' (fst cur + fst d, snd cur + snd d) = Some g2 \<and> g2 \<le> int n + 1)"
    using step rest by (meson order_trans)
  show ?case using rest mono here by simp
qed

lemma astar_expand:
  assumes inv: "astar_inv G s t C openh came gscore visited"
    and cv: "cur \<in> visited" and gc: "gscore cur = Some (int n)" and rn: "reach G s n cur"
    and fd: "fold (astar_relax G t cur (int n)) DIRS (openh, gscore) = (openh', gscore')"
  shows "astar_inv G s t (insert cur C) openh' came gscore' visited"
proof -
  have all: "astar_inv G s t C openh' came gscore' visited
    \<and> (\<forall>w g0. gscore w = Some g0 \<longrightarrow> (\<exists>g1. gscore' w = Some g1 \<and> g1 \<le> g0))
    \<and> (\<forall>d \<in> set DIRS. free G (fst cur + fst d, snd cur + snd d)
         \<longrightarrow> (\<exists>g1. gscore' (fst cur + fst d, snd cur + snd d) = Some g1 \<and> g1 \<le> int n + 1))
    \<and> gscore' cur = Some (int n)"
    by (rule astar_fold_inv [OF subset_refl inv cv gc rn fd])
  have cl: "closed_ok G gscore' C" using all unfolding astar_inv_def by blast
  have "closed_ok G gscore' (insert cur C)"
    unfolding closed_ok_def
  proof (intro ballI allI impI)
    fix v w assume v: "v \<in> insert cur C" and w: "adjacent v w \<and> free G w"
    show "\<exists>n g'. gscore' v = Some n \<and> gscore' w = Some g' \<and> g' \<le> n + 1"
    proof (cases "v = cur")
      case True
      obtain d where "d \<in> set DIRS" "w = (fst cur + fst d, snd cur + snd d)"
        using w True adjacent_dirs [of cur w] by blast
      then have "\<exists>g1. gscore' w = Some g1 \<and> g1 \<le> int n + 1" using all w by blast
      then show ?thesis using True all by blast
    next
      case False
      then show ?thesis using cl v w unfolding closed_ok_def by blast
    qed
  qed
  then show ?thesis using all cv unfolding astar_inv_def by blast
qed

lemma came_walk_None: "came_walk came None path = Some path"
  by (subst came_walk.simps) simp

lemma came_walk_Some:
  "came v = Some p' \<Longrightarrow> came_walk came (Some v) path = came_walk came p' (path @ [v])"
  by (subst came_walk.simps) simp

lemma came_walk_path:
  assumes vi: "visited_ok G s came gscore visited"
  shows "\<lbrakk>v \<in> visited; gscore v = Some (int n)\<rbrakk> \<Longrightarrow>
     \<exists>chain. came_walk came (Some v) acc = Some (acc @ chain)
        \<and> path_between G s v (rev chain) \<and> length chain = Suc n"
proof (induction n arbitrary: v acc)
  case 0
  obtain k where k: "gscore v = Some (int k)"
    and kc: "case came v of None \<Rightarrow> False | Some None \<Rightarrow> v = s \<and> k = 0
            | Some (Some p) \<Rightarrow> p \<in> visited \<and> adjacent p v \<and> free G v
                \<and> gscore p = Some (int k - 1)"
    using vi 0(1) unfolding visited_ok_def by blast
  have k0: "k = 0" using k 0(2) by simp
  have "came v = Some None \<and> v = s"
  proof (cases "came v")
    case None then show ?thesis using kc by simp
  next
    case (Some po)
    show ?thesis
    proof (cases po)
      case None then show ?thesis using kc Some by simp
    next
      case (Some p)
      then have "p \<in> visited" "gscore p = Some (- 1)" using kc \<open>came v = Some po\<close> k0 by auto
      then show ?thesis using vi unfolding visited_ok_def by force
    qed
  qed
  then have cvn: "came v = Some None" and vs: "v = s" by auto
  have "came_walk came (Some v) acc = Some (acc @ [v])"
    using came_walk_Some [of came v None acc] cvn came_walk_None [of came "acc @ [v]"] by simp
  moreover have "path_between G s v (rev [v])" using vs by (simp add: path_between_def)
  ultimately show ?case by (intro exI [of _ "[v]"]) simp
next
  case (Suc n)
  obtain k where k: "gscore v = Some (int k)"
    and kc: "case came v of None \<Rightarrow> False | Some None \<Rightarrow> v = s \<and> k = 0
            | Some (Some p) \<Rightarrow> p \<in> visited \<and> adjacent p v \<and> free G v
                \<and> gscore p = Some (int k - 1)"
    using vi Suc.prems(1) unfolding visited_ok_def by blast
  have kn: "k = Suc n" using k Suc.prems(2) by simp
  obtain p where p: "came v = Some (Some p)" "p \<in> visited" "adjacent p v" "free G v"
    "gscore p = Some (int n)"
    using kc kn by (auto split: option.splits)
  obtain chain where c: "came_walk came (Some p) (acc @ [v]) = Some ((acc @ [v]) @ chain)"
    and pb: "path_between G s p (rev chain)" and l: "length chain = Suc n"
    using Suc.IH [OF p(2) p(5), of "acc @ [v]"] by blast
  have "came_walk came (Some v) acc = Some (acc @ (v # chain))"
    using c p(1) by (simp add: came_walk_Some)
  moreover have "path_between G s v (rev (v # chain))"
    using pb p(3,4) moves_ok_snoc [of G "rev chain" v]
    by (auto simp: path_between_def)
  ultimately show ?case using l by (intro exI [of _ "v # chain"]) simp
qed

lemma astar_skip:
  assumes inv: "astar_inv G s t C openh came gscore visited"
    and ne: "openh \<noteq> []" and pop: "heappop openh = ((f, g, cur, par), openh1)"
    and cv: "cur \<in> visited"
  shows "astar_inv G s t C openh1 came gscore visited"
proof -
  have rest: "openh1 = remove1 (f, g, cur, par) openh"
    using heappop_in [OF ne pop] by auto
  have sub: "set openh1 \<subseteq> set openh" using rest set_remove1_subset by metis
  have en: "entries_ok G s t gscore visited openh1"
    using inv sub unfolding astar_inv_def entries_ok_def by blast
  have sc: "scores_ok G s t gscore visited openh1"
    unfolding scores_ok_def
  proof (intro allI impI conjI)
    fix c g0 assume g0: "gscore c = Some g0"
    show "\<exists>n. g0 = int n \<and> reach G s n c"
      using inv g0 unfolding astar_inv_def scores_ok_def by blast
    assume c: "c \<notin> visited"
    then obtain p0 where m0: "(g0 + manhattan c t, g0, c, p0) \<in> set openh"
      using inv g0 unfolding astar_inv_def scores_ok_def by blast
    have "(g0 + manhattan c t, g0, c, p0) \<noteq> (f, g, cur, par)" using c cv by auto
    then have "(g0 + manhattan c t, g0, c, p0) \<in> set openh1" using m0 rest by simp
    then show "\<exists>par. (g0 + manhattan c t, g0, c, par) \<in> set openh1" by blast
  qed
  have ky: "keys_ok openh1"
    using inv keys_ok_remove1 unfolding astar_inv_def rest by blast
  show ?thesis using inv en sc ky unfolding astar_inv_def by blast
qed

lemma astar_loop_correct:
  "\<lbrakk>astar_inv G s t visited openh came gscore visited; t \<notin> visited\<rbrakk> \<Longrightarrow>
     \<exists>p. astar_loop G t (openh, came, gscore, visited) = Some p
        \<and> (if \<exists>m. reach G s m t
            then path_between G s t p \<and> (\<forall>m. reach G s m t \<longrightarrow> length p \<le> Suc m)
            else p = [])"
proof (induction G t "(openh, came, gscore, visited)" arbitrary: openh came gscore visited
    rule: astar_loop.induct)
  case (1 G goal openh came gscore visited)
  note inv = "1.prems"(1) and tv = "1.prems"(2)
  show ?case
  proof (cases "openh = []")
    case True
    have "\<not> (\<exists>m. reach G s m goal)"
    proof
      assume "\<exists>m. reach G s m goal"
      then obtain m where "reach G s m goal" by blast
      then have "\<exists>f g u par. (f, g, u, par) \<in> set openh \<and> f \<le> int m + manhattan goal goal"
        using astar_frontier [of G s goal gscore visited openh came m goal] inv tv
        unfolding astar_inv_def by blast
      then show False using True by simp
    qed
    then show ?thesis using True by (simp add: astar_loop.simps)
  next
    case False
    obtain f g cur par openh1 where pop: "heappop openh = ((f, g, cur, par), openh1)"
      by (metis prod_cases4 surj_pair)
    show ?thesis
    proof (cases "cur \<in> visited")
      case True
      have inv1: "astar_inv G s goal visited openh1 came gscore visited"
        by (rule astar_skip [OF inv False pop True])
      have eq: "astar_loop G goal (openh, came, gscore, visited)
          = astar_loop G goal (openh1, came, gscore, visited)"
        using False pop True by (subst astar_loop.simps) simp
      show ?thesis unfolding eq
        by (rule "1.hyps"(1) [OF False pop [symmetric] refl refl refl True inv1 tv])
    next
      case nv: False
      have mid: "astar_inv G s goal visited openh1 (came(cur \<mapsto> par)) gscore (insert cur visited)"
        by (rule astar_pop(1) [OF inv False pop nv])
      obtain n where n: "g = int n" and gc: "gscore cur = Some (int n)"
        and rn: "reach G s n cur" and opt: "\<forall>m. reach G s m cur \<longrightarrow> n \<le> m"
        using astar_pop(2) [OF inv False pop nv] by auto
      show ?thesis
      proof (cases "cur = goal")
        case True
        have vi: "visited_ok G s (came(cur \<mapsto> par)) gscore (insert cur visited)"
          using mid unfolding astar_inv_def by blast
        obtain chain where c: "came_walk (came(cur \<mapsto> par)) (Some cur) [] = Some ([] @ chain)"
          and pb: "path_between G s cur (rev chain)" and l: "length chain = Suc n"
          using came_walk_path [OF vi _ gc, of "[]"] by blast
        have eq: "astar_loop G goal (openh, came, gscore, visited) = Some (rev chain)"
          using False pop nv True c by (subst astar_loop.simps) (simp add: Let_def)
        show ?thesis unfolding eq using pb l rn opt True by auto
      next
        case ng: False
        obtain openh2 gscore2 where
          fd: "fold (astar_relax G goal cur g) DIRS (openh1, gscore) = (openh2, gscore2)"
          by (cases "fold (astar_relax G goal cur g) DIRS (openh1, gscore)")
        have inv2: "astar_inv G s goal (insert cur visited) openh2 (came(cur \<mapsto> par)) gscore2
            (insert cur visited)"
          using astar_expand [OF mid _ gc rn] fd n by simp
        have tv2: "goal \<notin> insert cur visited" using tv ng by simp
        have eq: "astar_loop G goal (openh, came, gscore, visited)
            = astar_loop G goal (openh2, came(cur \<mapsto> par), gscore2, insert cur visited)"
          using False pop nv ng fd by (subst astar_loop.simps) (simp add: Let_def)
        show ?thesis unfolding eq
          by (rule "1.hyps"(2) [OF False pop [symmetric] refl refl refl nv refl refl ng
                fd [symmetric] inv2 tv2])
      qed
    qed
  qed
qed

lemma astar_init_inv:
  "astar_inv G s t {} (heappush [] (manhattan s t, 0, s, None)) Map.empty [s \<mapsto> 0] {}"
proof -
  have r0: "\<exists>n. (0::int) = int n \<and> reach G s n s"
    using reach_start [of G s] by (intro exI [of _ 0]) simp
  have "entries_ok G s t [s \<mapsto> 0] {} [(manhattan s t, 0, s, None)]"
    unfolding entries_ok_def using r0 by auto
  moreover have "scores_ok G s t [s \<mapsto> 0] {} [(manhattan s t, 0, s, None)]"
    unfolding scores_ok_def using r0 by (auto split: if_splits)
  moreover have "visited_ok G s Map.empty [s \<mapsto> 0] {}" unfolding visited_ok_def by simp
  moreover have "closed_ok G [s \<mapsto> 0] {}" unfolding closed_ok_def by simp
  moreover have "keys_ok [(manhattan s t, 0, s, None)]" unfolding keys_ok_def by simp
  ultimately show ?thesis unfolding astar_inv_def heappush_def by simp
qed

lemma astar_correct:
  "\<exists>p. astar G s t = Some p
     \<and> (if \<exists>m. reach G s m t
         then path_between G s t p \<and> (\<forall>m. reach G s m t \<longrightarrow> length p \<le> Suc m)
         else p = [])"
proof (cases "s = t")
  case True
  have "\<exists>m. reach G s m t" using True reach_start [of G s] by blast
  moreover have "path_between G s t [s]" using True by (simp add: path_between_def)
  ultimately show ?thesis using True by (simp add: astar_def)
next
  case False
  then have "astar G s t = astar_loop G t
        (heappush [] (manhattan s t, 0, s, None), Map.empty, [s \<mapsto> 0], {})"
    by (simp add: astar_def)
  then show ?thesis using astar_loop_correct [OF astar_init_inv, of t G s] by simp
qed

section \<open>The Dijkstra search: invariant\<close>

text \<open>
  The invariant of the \<open>while pq\<close> loop, for the start \<open>s\<close>. Every queued entry \<open>(d, c)\<close>
  has a distance \<open>d\<close> that is the number of steps of some walk from \<open>s\<close> to \<open>c\<close> and is not
  below \<open>dist[c]\<close> (\<open>pq_ok\<close>). Every recorded distance is the length of a walk; a cell with
  a distance that is not visited yet is queued with it; and its \<open>prev\<close> entry is missing for
  the start, and otherwise a visited neighbour whose distance is one less (\<open>dist_ok\<close>).
  Every visited cell has its final distance, the least number of steps from \<open>s\<close>
  (\<open>done_ok\<close>). Every passable neighbour of an expanded cell has a distance at most one
  above (\<open>closed_ok\<close>).
\<close>

definition pq_ok :: "grid \<Rightarrow> pos \<Rightarrow> (pos \<rightharpoonup> int) \<Rightarrow> (int \<times> pos) list \<Rightarrow> bool" where
  "pq_ok G s dst pq \<longleftrightarrow>
     (\<forall>d c. (d, c) \<in> set pq \<longrightarrow>
        (\<exists>d'. dst c = Some d' \<and> d' \<le> d) \<and> (\<exists>n. d = int n \<and> reach G s n c))"

definition dist_ok ::
  "grid \<Rightarrow> pos \<Rightarrow> (pos \<rightharpoonup> int) \<Rightarrow> (pos \<rightharpoonup> pos) \<Rightarrow> pos set \<Rightarrow> (int \<times> pos) list \<Rightarrow> bool" where
  "dist_ok G s dst prev visited pq \<longleftrightarrow>
     (\<forall>c d'. dst c = Some d' \<longrightarrow>
        (\<exists>n. d' = int n \<and> reach G s n c)
        \<and> (c \<notin> visited \<longrightarrow> (d', c) \<in> set pq)
        \<and> (case prev c of None \<Rightarrow> c = s \<and> d' = 0
            | Some p \<Rightarrow> c \<noteq> s \<and> p \<in> visited \<and> adjacent p c \<and> free G c
                \<and> dst p = Some (d' - 1)))"

definition done_ok :: "grid \<Rightarrow> pos \<Rightarrow> (pos \<rightharpoonup> int) \<Rightarrow> pos set \<Rightarrow> bool" where
  "done_ok G s dst visited \<longleftrightarrow>
     (\<forall>v \<in> visited. \<exists>n. dst v = Some (int n) \<and> reach G s n v
        \<and> (\<forall>m. reach G s m v \<longrightarrow> n \<le> m))"

definition dijkstra_inv ::
  "grid \<Rightarrow> pos \<Rightarrow> pos set \<Rightarrow> (int \<times> pos) list \<Rightarrow> (pos \<rightharpoonup> int) \<Rightarrow> (pos \<rightharpoonup> pos)
     \<Rightarrow> pos set \<Rightarrow> bool" where
  "dijkstra_inv G s C pq dst prev visited \<longleftrightarrow>
     pq_ok G s dst pq \<and> dist_ok G s dst prev visited pq \<and> done_ok G s dst visited
     \<and> closed_ok G dst C \<and> dst s = Some 0 \<and> C \<subseteq> visited"

lemma dijkstra_frontier:
  assumes di: "dist_ok G s dst prev visited pq"
    and dn: "done_ok G s dst visited"
    and cl: "closed_ok G dst visited"
    and s0: "dst s = Some 0"
    and r: "reach G s m v" and nv: "v \<notin> visited"
  shows "\<exists>d u. (d, u) \<in> set pq \<and> d \<le> int m"
  using r nv
proof (induction rule: reach.induct)
  case reach_start
  have "(0, s) \<in> set pq" using di s0 reach_start unfolding dist_ok_def by blast
  then have "(0, s) \<in> set pq \<and> 0 \<le> int 0" by simp
  then show ?case by blast
next
  case (reach_step n c c')
  show ?case
  proof (cases "c \<in> visited")
    case True
    obtain k where k: "dst c = Some (int k)" and kn: "k \<le> n"
      using dn True reach_step.hyps(1) unfolding done_ok_def by blast
    obtain g' where g': "dst c' = Some g'" and le: "g' \<le> int k + 1"
      using cl True reach_step.hyps(2,3) k unfolding closed_ok_def by fastforce
    have "(g', c') \<in> set pq" using di g' reach_step.prems unfolding dist_ok_def by blast
    moreover have "g' \<le> int (Suc n)" using le kn by simp
    ultimately show ?thesis by blast
  next
    case False
    obtain d u where e: "(d, u) \<in> set pq" and f: "d \<le> int n"
      using reach_step.IH [OF False] by blast
    have "d \<le> int (Suc n)" using f by simp
    with e show ?thesis by blast
  qed
qed

lemma dijkstra_pop:
  assumes inv: "dijkstra_inv G s visited pq dst prev visited"
    and ne: "pq \<noteq> []" and pop: "heappop pq = ((d, cur), pq1)"
    and nv: "cur \<notin> visited"
  shows "dijkstra_inv G s visited pq1 dst prev (insert cur visited)"
    and "\<exists>n. d = int n \<and> dst cur = Some d \<and> reach G s n cur
           \<and> (\<forall>m. reach G s m cur \<longrightarrow> n \<le> m)"
proof -
  have pk: "pq_ok G s dst pq"
    and di: "dist_ok G s dst prev visited pq"
    and dn: "done_ok G s dst visited"
    and cl: "closed_ok G dst visited"
    and s0: "dst s = Some 0"
    using inv unfolding dijkstra_inv_def by auto
  have mem: "(d, cur) \<in> set pq"
    and rest: "pq1 = remove1 (d, cur) pq"
    and least: "\<forall>e \<in> set pq. (d, cur) \<le> e"
    using heappop_in [OF ne pop] by auto
  obtain d' where d': "dst cur = Some d'" and d'le: "d' \<le> d"
    using pk mem unfolding pq_ok_def by blast
  obtain n where n: "d = int n" and rn: "reach G s n cur"
    using pk mem unfolding pq_ok_def by blast
  have "(d', cur) \<in> set pq" using di d' nv unfolding dist_ok_def by blast
  then have "(d, cur) \<le> (d', cur)" using least by blast
  then have "d \<le> d'" by (rule prod_le_fst)
  then have dd: "d = d'" using d'le by simp
  have opt: "\<forall>m. reach G s m cur \<longrightarrow> n \<le> m"
  proof (intro allI impI)
    fix m assume "reach G s m cur"
    then obtain d'' u where e: "(d'', u) \<in> set pq" and le: "d'' \<le> int m"
      using dijkstra_frontier [OF di dn cl s0 _ nv] by blast
    have "(d, cur) \<le> (d'', u)" using least e by blast
    then have "d \<le> d''" by (rule prod_le_fst)
    then show "n \<le> m" using le n by simp
  qed
  show "\<exists>n. d = int n \<and> dst cur = Some d \<and> reach G s n cur
           \<and> (\<forall>m. reach G s m cur \<longrightarrow> n \<le> m)"
    using n d' dd rn opt by blast
  have sub: "set pq1 \<subseteq> set pq" using rest set_remove1_subset by metis
  have pk': "pq_ok G s dst pq1" using pk sub unfolding pq_ok_def by blast
  have di': "dist_ok G s dst prev (insert cur visited) pq1"
    unfolding dist_ok_def
  proof (intro allI impI)
    fix c g0 assume g0: "dst c = Some g0"
    have a: "\<exists>n. g0 = int n \<and> reach G s n c" using di g0 unfolding dist_ok_def by blast
    have b: "c \<notin> insert cur visited \<longrightarrow> (g0, c) \<in> set pq1"
    proof
      assume "c \<notin> insert cur visited"
      then have cc: "c \<noteq> cur" "c \<notin> visited" by auto
      then have m0: "(g0, c) \<in> set pq" using di g0 unfolding dist_ok_def by blast
      have "(g0, c) \<noteq> (d, cur)" using cc by simp
      then show "(g0, c) \<in> set pq1" using m0 rest by simp
    qed
    have "case prev c of None \<Rightarrow> c = s \<and> g0 = 0
            | Some p \<Rightarrow> c \<noteq> s \<and> p \<in> visited \<and> adjacent p c \<and> free G c
                \<and> dst p = Some (g0 - 1)"
      using di g0 unfolding dist_ok_def by blast
    then have c: "case prev c of None \<Rightarrow> c = s \<and> g0 = 0
            | Some p \<Rightarrow> c \<noteq> s \<and> p \<in> insert cur visited \<and> adjacent p c \<and> free G c
                \<and> dst p = Some (g0 - 1)"
      by (cases "prev c") auto
    from a b c show "(\<exists>n. g0 = int n \<and> reach G s n c)
        \<and> (c \<notin> insert cur visited \<longrightarrow> (g0, c) \<in> set pq1)
        \<and> (case prev c of None \<Rightarrow> c = s \<and> g0 = 0
            | Some p \<Rightarrow> c \<noteq> s \<and> p \<in> insert cur visited \<and> adjacent p c \<and> free G c
                \<and> dst p = Some (g0 - 1))" by blast
  qed
  have dn': "done_ok G s dst (insert cur visited)"
    unfolding done_ok_def
  proof
    fix v assume v: "v \<in> insert cur visited"
    show "\<exists>n. dst v = Some (int n) \<and> reach G s n v \<and> (\<forall>m. reach G s m v \<longrightarrow> n \<le> m)"
    proof (cases "v = cur")
      case True
      show ?thesis unfolding True using d' dd n rn opt by (intro exI [of _ n]) simp
    next
      case False
      then show ?thesis using v dn unfolding done_ok_def by blast
    qed
  qed
  show "dijkstra_inv G s visited pq1 dst prev (insert cur visited)"
    unfolding dijkstra_inv_def using pk' di' dn' cl s0 by blast
qed

lemma dijkstra_skip:
  assumes inv: "dijkstra_inv G s C pq dst prev visited"
    and ne: "pq \<noteq> []" and pop: "heappop pq = ((d, cur), pq1)"
    and cv: "cur \<in> visited"
  shows "dijkstra_inv G s C pq1 dst prev visited"
proof -
  have rest: "pq1 = remove1 (d, cur) pq"
    using heappop_in [OF ne pop] by auto
  have sub: "set pq1 \<subseteq> set pq" using rest set_remove1_subset by metis
  have pk: "pq_ok G s dst pq1"
    using inv sub unfolding dijkstra_inv_def pq_ok_def by blast
  have di: "dist_ok G s dst prev visited pq"
    using inv unfolding dijkstra_inv_def by blast
  have di': "dist_ok G s dst prev visited pq1"
    unfolding dist_ok_def
  proof (intro allI impI)
    fix c g0 assume g0: "dst c = Some g0"
    have a: "\<exists>n. g0 = int n \<and> reach G s n c" using di g0 unfolding dist_ok_def by blast
    have b: "c \<notin> visited \<longrightarrow> (g0, c) \<in> set pq1"
    proof
      assume c: "c \<notin> visited"
      then have m0: "(g0, c) \<in> set pq" using di g0 unfolding dist_ok_def by blast
      have "(g0, c) \<noteq> (d, cur)" using c cv by auto
      then show "(g0, c) \<in> set pq1" using m0 rest by simp
    qed
    have c: "case prev c of None \<Rightarrow> c = s \<and> g0 = 0
            | Some p \<Rightarrow> c \<noteq> s \<and> p \<in> visited \<and> adjacent p c \<and> free G c
                \<and> dst p = Some (g0 - 1)"
      using di g0 unfolding dist_ok_def by blast
    from a b c show "(\<exists>n. g0 = int n \<and> reach G s n c)
        \<and> (c \<notin> visited \<longrightarrow> (g0, c) \<in> set pq1)
        \<and> (case prev c of None \<Rightarrow> c = s \<and> g0 = 0
            | Some p \<Rightarrow> c \<noteq> s \<and> p \<in> visited \<and> adjacent p c \<and> free G c
                \<and> dst p = Some (g0 - 1))" by blast
  qed
  show ?thesis using inv pk di' unfolding dijkstra_inv_def by blast
qed

lemma dijkstra_relax_cases:
  assumes "dijkstra_relax G cur d dir (pq, dst, prev) = (pq', dst', prev')"
  shows "(pq' = pq \<and> dst' = dst \<and> prev' = prev
          \<and> (free G (fst cur + fst dir, snd cur + snd dir)
               \<longrightarrow> (\<exists>old. dst (fst cur + fst dir, snd cur + snd dir) = Some old \<and> old \<le> d + 1)))
       \<or> (free G (fst cur + fst dir, snd cur + snd dir)
          \<and> (\<forall>old. dst (fst cur + fst dir, snd cur + snd dir) = Some old \<longrightarrow> d + 1 < old)
          \<and> pq' = pq @ [(d + 1, (fst cur + fst dir, snd cur + snd dir))]
          \<and> dst' = dst((fst cur + fst dir, snd cur + snd dir) \<mapsto> d + 1)
          \<and> prev' = prev((fst cur + fst dir, snd cur + snd dir) \<mapsto> cur))"
  using assms
  by (auto simp: dijkstra_relax_def Let_def heappush_def free_def split: if_splits option.splits)

lemma dijkstra_relax_inv:
  assumes inv: "dijkstra_inv G s C pq dst prev visited"
    and cv: "cur \<in> visited" and gc: "dst cur = Some (int n)" and rn: "reach G s n cur"
    and d: "dir \<in> set DIRS"
    and rel: "dijkstra_relax G cur (int n) dir (pq, dst, prev) = (pq', dst', prev')"
  shows "dijkstra_inv G s C pq' dst' prev' visited
    \<and> (\<forall>w g0. dst w = Some g0 \<longrightarrow> (\<exists>g1. dst' w = Some g1 \<and> g1 \<le> g0))
    \<and> (free G (fst cur + fst dir, snd cur + snd dir)
         \<longrightarrow> (\<exists>g1. dst' (fst cur + fst dir, snd cur + snd dir) = Some g1 \<and> g1 \<le> int n + 1))
    \<and> dst' cur = Some (int n)"
proof -
  define nb where "nb = (fst cur + fst dir, snd cur + snd dir)"
  have pk: "pq_ok G s dst pq"
    and di: "dist_ok G s dst prev visited pq"
    and dn: "done_ok G s dst visited"
    and cl: "closed_ok G dst C"
    and s0: "dst s = Some 0" and cs: "C \<subseteq> visited"
    using inv unfolding dijkstra_inv_def by auto
  consider (same) "pq' = pq" "dst' = dst" "prev' = prev"
      "free G nb \<longrightarrow> (\<exists>old. dst nb = Some old \<and> old \<le> int n + 1)"
    | (better) "free G nb" "\<forall>old. dst nb = Some old \<longrightarrow> int n + 1 < old"
      "pq' = pq @ [(int n + 1, nb)]"
      "dst' = dst(nb \<mapsto> int n + 1)" "prev' = prev(nb \<mapsto> cur)"
    using dijkstra_relax_cases [OF rel] unfolding nb_def by blast
  then show ?thesis
  proof cases
    case same
    then show ?thesis using inv gc unfolding nb_def [symmetric] by simp
  next
    case better
    have adj: "adjacent cur nb" using d adjacent_dirs [of cur nb] unfolding nb_def by blast
    have rnb: "reach G s (Suc n) nb" using rn adj better(1) by (rule reach_step)
    have exr: "\<exists>k. int n + 1 = int k \<and> reach G s k nb"
      using rnb by (intro exI [of _ "Suc n"]) simp
    have nbv: "nb \<notin> visited"
    proof
      assume "nb \<in> visited"
      then obtain k where "dst nb = Some (int k)" "\<forall>m. reach G s m nb \<longrightarrow> k \<le> m"
        using dn unfolding done_ok_def by blast
      then have "int n + 1 < int k" "k \<le> Suc n" using better(2) rnb by auto
      then show False by simp
    qed
    have nbs: "nb \<noteq> s" using better(2) s0 by auto
    have keep: "\<And>w. w \<in> visited \<Longrightarrow> dst' w = dst w"
      using nbv better(4) by auto
    have mono: "\<forall>w g0. dst w = Some g0 \<longrightarrow> (\<exists>g1. dst' w = Some g1 \<and> g1 \<le> g0)"
    proof (intro allI impI)
      fix w g0 assume w: "dst w = Some g0"
      show "\<exists>g1. dst' w = Some g1 \<and> g1 \<le> g0"
      proof (cases "w = nb")
        case True
        then have "int n + 1 < g0" using better(2) w by simp
        then show ?thesis using True better(4) by simp
      next
        case False
        then show ?thesis using w better(4) by simp
      qed
    qed
    have pk': "pq_ok G s dst' pq'"
      unfolding pq_ok_def
    proof (intro allI impI)
      fix d0 c0 assume "(d0, c0) \<in> set pq'"
      then consider (old) "(d0, c0) \<in> set pq" | (new) "d0 = int n + 1" "c0 = nb"
        using better(3) by auto
      then show "(\<exists>d'. dst' c0 = Some d' \<and> d' \<le> d0) \<and> (\<exists>n. d0 = int n \<and> reach G s n c0)"
      proof cases
        case old
        have a: "\<exists>n. d0 = int n \<and> reach G s n c0" using pk old unfolding pq_ok_def by blast
        obtain g' where "dst c0 = Some g'" "g' \<le> d0" using pk old unfolding pq_ok_def by blast
        then have "\<exists>g'. dst' c0 = Some g' \<and> g' \<le> d0" using mono by (meson order_trans)
        with a show ?thesis by blast
      next
        case new
        have "dst' nb = Some (int n + 1)" using better(4) by simp
        then show ?thesis using new exr by simp
      qed
    qed
    have di': "dist_ok G s dst' prev' visited pq'"
      unfolding dist_ok_def
    proof (intro allI impI)
      fix c g0 assume g0: "dst' c = Some g0"
      show "(\<exists>n. g0 = int n \<and> reach G s n c)
        \<and> (c \<notin> visited \<longrightarrow> (g0, c) \<in> set pq')
        \<and> (case prev' c of None \<Rightarrow> c = s \<and> g0 = 0
            | Some p \<Rightarrow> c \<noteq> s \<and> p \<in> visited \<and> adjacent p c \<and> free G c
                \<and> dst' p = Some (g0 - 1))"
      proof (cases "c = nb")
        case True
        then have g0': "g0 = int n + 1" using g0 better(4) by simp
        have "(int n + 1, nb) \<in> set pq'" using better(3) by simp
        moreover have "prev' nb = Some cur" using better(5) by simp
        moreover have "dst' cur = Some (int n)" using keep [OF cv] gc by simp
        ultimately show ?thesis unfolding True g0' using exr nbs cv adj better(1) by simp
      next
        case False
        then have old: "dst c = Some g0" using g0 better(4) by simp
        have a: "\<exists>n. g0 = int n \<and> reach G s n c" using di old unfolding dist_ok_def by blast
        have "c \<notin> visited \<longrightarrow> (g0, c) \<in> set pq" using di old unfolding dist_ok_def by blast
        then have b: "c \<notin> visited \<longrightarrow> (g0, c) \<in> set pq'" using better(3) by simp
        have "case prev c of None \<Rightarrow> c = s \<and> g0 = 0
            | Some p \<Rightarrow> c \<noteq> s \<and> p \<in> visited \<and> adjacent p c \<and> free G c
                \<and> dst p = Some (g0 - 1)"
          using di old unfolding dist_ok_def by blast
        then have "case prev c of None \<Rightarrow> c = s \<and> g0 = 0
            | Some p \<Rightarrow> c \<noteq> s \<and> p \<in> visited \<and> adjacent p c \<and> free G c
                \<and> dst' p = Some (g0 - 1)"
          using keep by (cases "prev c") auto
        moreover have "prev' c = prev c" using False better(5) by simp
        ultimately show ?thesis using a b by simp
      qed
    qed
    have dn': "done_ok G s dst' visited"
      unfolding done_ok_def
    proof
      fix v assume v: "v \<in> visited"
      then show "\<exists>n. dst' v = Some (int n) \<and> reach G s n v
          \<and> (\<forall>m. reach G s m v \<longrightarrow> n \<le> m)"
        using dn keep [OF v] unfolding done_ok_def by simp
    qed
    have cl': "closed_ok G dst' C"
      unfolding closed_ok_def
    proof (intro ballI allI impI)
      fix v w assume v: "v \<in> C" and w: "adjacent v w \<and> free G w"
      obtain k g' where "dst v = Some k" "dst w = Some g'" "g' \<le> k + 1"
        using cl v w unfolding closed_ok_def by blast
      moreover have "dst' v = dst v" using keep v cs by blast
      ultimately show "\<exists>n g'. dst' v = Some n \<and> dst' w = Some g' \<and> g' \<le> n + 1"
        using mono by (metis order_trans)
    qed
    have s0': "dst' s = Some 0" using s0 nbs better(4) by simp
    have "dijkstra_inv G s C pq' dst' prev' visited"
      unfolding dijkstra_inv_def using pk' di' dn' cl' s0' cs by blast
    moreover have "dst' nb = Some (int n + 1)" using better(4) by simp
    moreover have "dst' cur = Some (int n)" using keep [OF cv] gc by simp
    ultimately show ?thesis using mono unfolding nb_def [symmetric] by simp
  qed
qed

lemma dijkstra_fold_inv:
  assumes ds: "set ds \<subseteq> set DIRS"
    and inv: "dijkstra_inv G s C pq dst prev visited"
    and cv: "cur \<in> visited" and gc: "dst cur = Some (int n)" and rn: "reach G s n cur"
    and fd: "fold (dijkstra_relax G cur (int n)) ds (pq, dst, prev) = (pq', dst', prev')"
  shows "dijkstra_inv G s C pq' dst' prev' visited
    \<and> (\<forall>w g0. dst w = Some g0 \<longrightarrow> (\<exists>g1. dst' w = Some g1 \<and> g1 \<le> g0))
    \<and> (\<forall>d \<in> set ds. free G (fst cur + fst d, snd cur + snd d)
         \<longrightarrow> (\<exists>g1. dst' (fst cur + fst d, snd cur + snd d) = Some g1 \<and> g1 \<le> int n + 1))
    \<and> dst' cur = Some (int n)"
  using ds inv gc fd
proof (induction ds arbitrary: pq dst prev)
  case Nil
  then show ?case by simp
next
  case (Cons d ds)
  obtain q1 d1 p1 where r1: "dijkstra_relax G cur (int n) d (pq, dst, prev) = (q1, d1, p1)"
    by (cases "dijkstra_relax G cur (int n) d (pq, dst, prev)") auto
  have d: "d \<in> set DIRS" and ds: "set ds \<subseteq> set DIRS" using Cons.prems(1) by auto
  have step: "dijkstra_inv G s C q1 d1 p1 visited
    \<and> (\<forall>w g0. dst w = Some g0 \<longrightarrow> (\<exists>g2. d1 w = Some g2 \<and> g2 \<le> g0))
    \<and> (free G (fst cur + fst d, snd cur + snd d)
         \<longrightarrow> (\<exists>g2. d1 (fst cur + fst d, snd cur + snd d) = Some g2 \<and> g2 \<le> int n + 1))
    \<and> d1 cur = Some (int n)"
    by (rule dijkstra_relax_inv [OF Cons.prems(2) cv Cons.prems(3) rn d r1])
  have fd': "fold (dijkstra_relax G cur (int n)) ds (q1, d1, p1) = (pq', dst', prev')"
    using Cons.prems(4) r1 by simp
  have rest: "dijkstra_inv G s C pq' dst' prev' visited
    \<and> (\<forall>w g0. d1 w = Some g0 \<longrightarrow> (\<exists>g2. dst' w = Some g2 \<and> g2 \<le> g0))
    \<and> (\<forall>d \<in> set ds. free G (fst cur + fst d, snd cur + snd d)
         \<longrightarrow> (\<exists>g2. dst' (fst cur + fst d, snd cur + snd d) = Some g2 \<and> g2 \<le> int n + 1))
    \<and> dst' cur = Some (int n)"
    using Cons.IH [OF ds _ _ fd'] step by blast
  have mono: "\<forall>w g0. dst w = Some g0 \<longrightarrow> (\<exists>g2. dst' w = Some g2 \<and> g2 \<le> g0)"
    using step rest by (meson order_trans)
  have here: "free G (fst cur + fst d, snd cur + snd d)
         \<longrightarrow> (\<exists>g2. dst' (fst cur + fst d, snd cur + snd d) = Some g2 \<and> g2 \<le> int n + 1)"
    using step rest by (meson order_trans)
  show ?case using rest mono here by simp
qed

lemma dijkstra_expand:
  assumes inv: "dijkstra_inv G s C pq dst prev visited"
    and cv: "cur \<in> visited" and gc: "dst cur = Some (int n)" and rn: "reach G s n cur"
    and fd: "fold (dijkstra_relax G cur (int n)) DIRS (pq, dst, prev) = (pq', dst', prev')"
  shows "dijkstra_inv G s (insert cur C) pq' dst' prev' visited"
proof -
  have all: "dijkstra_inv G s C pq' dst' prev' visited
    \<and> (\<forall>w g0. dst w = Some g0 \<longrightarrow> (\<exists>g1. dst' w = Some g1 \<and> g1 \<le> g0))
    \<and> (\<forall>d \<in> set DIRS. free G (fst cur + fst d, snd cur + snd d)
         \<longrightarrow> (\<exists>g1. dst' (fst cur + fst d, snd cur + snd d) = Some g1 \<and> g1 \<le> int n + 1))
    \<and> dst' cur = Some (int n)"
    by (rule dijkstra_fold_inv [OF subset_refl inv cv gc rn fd])
  have cl: "closed_ok G dst' C" using all unfolding dijkstra_inv_def by blast
  have "closed_ok G dst' (insert cur C)"
    unfolding closed_ok_def
  proof (intro ballI allI impI)
    fix v w assume v: "v \<in> insert cur C" and w: "adjacent v w \<and> free G w"
    show "\<exists>n g'. dst' v = Some n \<and> dst' w = Some g' \<and> g' \<le> n + 1"
    proof (cases "v = cur")
      case True
      obtain d where "d \<in> set DIRS" "w = (fst cur + fst d, snd cur + snd d)"
        using w True adjacent_dirs [of cur w] by blast
      then have "\<exists>g1. dst' w = Some g1 \<and> g1 \<le> int n + 1" using all w by blast
      then show ?thesis using True all by blast
    next
      case False
      then show ?thesis using cl v w unfolding closed_ok_def by blast
    qed
  qed
  then show ?thesis using all cv unfolding dijkstra_inv_def by blast
qed

lemma prev_walk_start: "prev_walk prev s s path = Some (path @ [s])"
  by (subst prev_walk.simps) simp

lemma prev_walk_step:
  "\<lbrakk>v \<noteq> s; prev v = Some p\<rbrakk> \<Longrightarrow> prev_walk prev s v path = prev_walk prev s p (path @ [v])"
  by (subst prev_walk.simps) simp

lemma prev_walk_path:
  assumes di: "dist_ok G s dst prev visited pq" and dn: "done_ok G s dst visited"
    and s0: "dst s = Some 0"
  shows "\<lbrakk>v \<in> visited; dst v = Some (int n)\<rbrakk> \<Longrightarrow>
     \<exists>chain. prev_walk prev s v acc = Some (acc @ chain)
        \<and> path_between G s v (rev chain) \<and> length chain = Suc n"
proof (induction n arbitrary: v acc)
  case 0
  have pc: "case prev v of None \<Rightarrow> v = s \<and> (0::int) = 0
            | Some p \<Rightarrow> v \<noteq> s \<and> p \<in> visited \<and> adjacent p v \<and> free G v
                \<and> dst p = Some (0 - 1)"
    using di 0(2) unfolding dist_ok_def by fastforce
  have vs: "v = s"
  proof (cases "prev v")
    case None then show ?thesis using pc by simp
  next
    case (Some p)
    then have "p \<in> visited" "dst p = Some (- 1)" using pc by auto
    then show ?thesis using dn unfolding done_ok_def by force
  qed
  have "prev_walk prev s v acc = Some (acc @ [v])" unfolding vs by (rule prev_walk_start)
  moreover have "path_between G s v (rev [v])" using vs by (simp add: path_between_def)
  ultimately show ?case by (intro exI [of _ "[v]"]) simp
next
  case (Suc n)
  have pc: "case prev v of None \<Rightarrow> v = s \<and> int (Suc n) = 0
            | Some p \<Rightarrow> v \<noteq> s \<and> p \<in> visited \<and> adjacent p v \<and> free G v
                \<and> dst p = Some (int (Suc n) - 1)"
    using di Suc.prems(2) unfolding dist_ok_def by fastforce
  obtain p where p: "prev v = Some p" "v \<noteq> s" "p \<in> visited" "adjacent p v" "free G v"
    "dst p = Some (int n)"
    using pc by (cases "prev v") auto
  obtain chain where c: "prev_walk prev s p (acc @ [v]) = Some ((acc @ [v]) @ chain)"
    and pb: "path_between G s p (rev chain)" and l: "length chain = Suc n"
    using Suc.IH [OF p(3) p(6), of "acc @ [v]"] by blast
  have "prev_walk prev s v acc = Some (acc @ (v # chain))"
    using c prev_walk_step [of v s prev p acc] p(1,2) by simp
  moreover have "path_between G s v (rev (v # chain))"
    using pb p(4,5) moves_ok_snoc [of G "rev chain" v]
    by (auto simp: path_between_def)
  ultimately show ?case using l by (intro exI [of _ "v # chain"]) simp
qed

lemma dijkstra_loop_correct:
  "\<lbrakk>dijkstra_inv G s visited pq dst prev visited; t \<notin> visited\<rbrakk> \<Longrightarrow>
     \<exists>p. dijkstra_loop G s t (pq, dst, prev, visited) = Some p
        \<and> (if \<exists>m. reach G s m t
            then path_between G s t p \<and> (\<forall>m. reach G s m t \<longrightarrow> length p \<le> Suc m)
            else p = [])"
proof (induction G s t "(pq, dst, prev, visited)" arbitrary: pq dst prev visited
    rule: dijkstra_loop.induct)
  case (1 G start goal pq dst prev visited)
  note inv = "1.prems"(1) and tv = "1.prems"(2)
  show ?case
  proof (cases "pq = []")
    case True
    have "\<not> (\<exists>m. reach G start m goal)"
    proof
      assume "\<exists>m. reach G start m goal"
      then obtain m where "reach G start m goal" by blast
      then have "\<exists>d u. (d, u) \<in> set pq \<and> d \<le> int m"
        using dijkstra_frontier [of G start dst prev visited pq m goal] inv tv
        unfolding dijkstra_inv_def by blast
      then show False using True by simp
    qed
    then show ?thesis using True by (simp add: dijkstra_loop.simps)
  next
    case False
    obtain d cur pq1 where pop: "heappop pq = ((d, cur), pq1)"
      by (metis surj_pair)
    show ?thesis
    proof (cases "cur \<in> visited")
      case True
      have inv1: "dijkstra_inv G start visited pq1 dst prev visited"
        by (rule dijkstra_skip [OF inv False pop True])
      have eq: "dijkstra_loop G start goal (pq, dst, prev, visited)
          = dijkstra_loop G start goal (pq1, dst, prev, visited)"
        using False pop True by (subst dijkstra_loop.simps) simp
      show ?thesis unfolding eq
        by (rule "1.hyps"(1) [OF False pop [symmetric] refl True inv1 tv])
    next
      case nv: False
      have mid: "dijkstra_inv G start visited pq1 dst prev (insert cur visited)"
        by (rule dijkstra_pop(1) [OF inv False pop nv])
      obtain n where n: "d = int n" and gc: "dst cur = Some (int n)"
        and rn: "reach G start n cur" and opt: "\<forall>m. reach G start m cur \<longrightarrow> n \<le> m"
        using dijkstra_pop(2) [OF inv False pop nv] by auto
      show ?thesis
      proof (cases "cur = goal")
        case True
        have di: "dist_ok G start dst prev (insert cur visited) pq1"
          and dn: "done_ok G start dst (insert cur visited)"
          and s0: "dst start = Some 0"
          using mid unfolding dijkstra_inv_def by auto
        obtain chain where c: "prev_walk prev start cur [] = Some ([] @ chain)"
          and pb: "path_between G start cur (rev chain)" and l: "length chain = Suc n"
          using prev_walk_path [OF di dn s0 _ gc, of "[]"] by blast
        have eq: "dijkstra_loop G start goal (pq, dst, prev, visited) = Some (rev chain)"
          using False pop nv True c by (subst dijkstra_loop.simps) (simp add: Let_def)
        show ?thesis unfolding eq using pb l rn opt True by auto
      next
        case ng: False
        obtain pq2 dst2 prev2 where
          fd: "fold (dijkstra_relax G cur d) DIRS (pq1, dst, prev) = (pq2, dst2, prev2)"
          by (cases "fold (dijkstra_relax G cur d) DIRS (pq1, dst, prev)") auto
        have inv2: "dijkstra_inv G start (insert cur visited) pq2 dst2 prev2
            (insert cur visited)"
          using dijkstra_expand [OF mid _ gc rn] fd n by simp
        have tv2: "goal \<notin> insert cur visited" using tv ng by simp
        have eq: "dijkstra_loop G start goal (pq, dst, prev, visited)
            = dijkstra_loop G start goal (pq2, dst2, prev2, insert cur visited)"
          using False pop nv ng fd by (subst dijkstra_loop.simps) (simp add: Let_def)
        show ?thesis unfolding eq
          by (rule "1.hyps"(2) [OF False pop [symmetric] refl nv refl ng
                fd [symmetric] refl inv2 tv2])
      qed
    qed
  qed
qed

lemma dijkstra_init_inv:
  "dijkstra_inv G s {} (heappush [] (0, s)) [s \<mapsto> 0] Map.empty {}"
proof -
  have r0: "\<exists>n. (0::int) = int n \<and> reach G s n s"
    using reach_start [of G s] by (intro exI [of _ 0]) simp
  have "pq_ok G s [s \<mapsto> 0] [(0, s)]"
    unfolding pq_ok_def using r0 by auto
  moreover have "dist_ok G s [s \<mapsto> 0] Map.empty {} [(0, s)]"
    unfolding dist_ok_def using r0 by (auto split: if_splits)
  moreover have "done_ok G s [s \<mapsto> 0] {}" unfolding done_ok_def by simp
  moreover have "closed_ok G [s \<mapsto> 0] {}" unfolding closed_ok_def by simp
  ultimately show ?thesis unfolding dijkstra_inv_def heappush_def by simp
qed

lemma dijkstra_correct:
  "\<exists>p. dijkstra G s t = Some p
     \<and> (if \<exists>m. reach G s m t
         then path_between G s t p \<and> (\<forall>m. reach G s m t \<longrightarrow> length p \<le> Suc m)
         else p = [])"
proof (cases "s = t")
  case True
  have "\<exists>m. reach G s m t" using True reach_start [of G s] by blast
  moreover have "path_between G s t [s]" using True by (simp add: path_between_def)
  ultimately show ?thesis using True by (simp add: dijkstra_def)
next
  case False
  then have "dijkstra G s t = dijkstra_loop G s t
        (heappush [] (0, s), [s \<mapsto> 0], Map.empty, {})"
    by (simp add: dijkstra_def)
  then show ?thesis using dijkstra_loop_correct [OF dijkstra_init_inv, of t G s] by simp
qed

section \<open>Path finding: results\<close>

lemma reachable_iff: "(\<exists>q. path_between G s t q) \<longleftrightarrow> (\<exists>m. reach G s m t)"
  using reach_path path_reach by blast

lemma path_length_reach: "path_between G s t q \<Longrightarrow> \<exists>m. reach G s m t \<and> length q = Suc m"
proof -
  assume q: "path_between G s t q"
  then have "q \<noteq> []" by (simp add: path_between_def)
  then have "length q = Suc (length q - 1)" by (cases q) simp_all
  then show ?thesis using path_reach [OF q] by blast
qed

lemma path_cells_free:
  assumes "path_between G s t p" and "free G s"
  shows "\<forall>c \<in> set p. free G c"
proof -
  obtain x xs where p: "p = x # xs" using assms(1) by (cases p) (auto simp: path_between_def)
  then have "x = s" "moves_ok G p" using assms(1) by (auto simp: path_between_def)
  then show ?thesis using moves_ok_free [of G p] assms(2) p by auto
qed

lemma reach_free: "reach G s n c \<Longrightarrow> c = s \<or> free G c"
  by (induction rule: reach.induct) auto

lemma enclosed_unreachable:
  assumes "start \<noteq> goal" and "free G start" and "\<forall>c. adjacent c goal \<longrightarrow> \<not> free G c"
  shows "\<not> (\<exists>q. path_between G start goal q)"
proof
  assume "\<exists>q. path_between G start goal q"
  then obtain m where "reach G start m goal" using reachable_iff by blast
  then show False
  proof (cases rule: reach.cases)
    case reach_start
    then show False using assms(1) by simp
  next
    case (reach_step n c)
    then have "c = start \<or> free G c" using reach_free by blast
    then have "free G c" using assms(2) by auto
    then show False using reach_step assms(3) by blast
  qed
qed

lemma walled_floor_free:
  "free walled_floor p \<longleftrightarrow> in_bounds empty_floor p \<and> p \<notin> rect_cells 4 4 3 3"
  by (auto simp: walled_floor_def free_def block_rect_eq)

lemma detour_path:
  "path_between walled_floor (3, 5) (7, 5)
     [(3,5), (3,4), (3,3), (4,3), (5,3), (6,3), (7,3), (7,4), (7,5)]"
  by (simp add: path_between_def adjacent_def walled_floor_free in_bounds_def rect_cells_def)

lemma detour_start: "free walled_floor (3, 5)"
  by (simp add: walled_floor_free in_bounds_def rect_cells_def)

lemma detour_astar_length: "map_option length (astar walled_floor (3, 5) (7, 5)) = Some 9"
  by code_simp

lemma detour_dijkstra_length: "map_option length (dijkstra walled_floor (3, 5) (7, 5)) = Some 9"
  by code_simp

text \<open>
  Claim C1: for every grid, every passable start and every goal reachable from it, the A*
  search returns a path that begins at the start, ends at the goal, moves only between
  axis-adjacent cells that are inside the grid and not blocked, and is no longer than any
  other such path.
\<close>

theorem astar_optimal:
  assumes "free G start" and "path_between G start goal q"
  shows "\<exists>p. astar G start goal = Some p \<and> path_between G start goal p
           \<and> (\<forall>c \<in> set p. free G c)
           \<and> (\<forall>q'. path_between G start goal q' \<longrightarrow> length p \<le> length q')"
proof -
  have r: "\<exists>m. reach G start m goal" using assms(2) reachable_iff by blast
  then obtain p where p: "astar G start goal = Some p" "path_between G start goal p"
    and opt: "\<forall>m. reach G start m goal \<longrightarrow> length p \<le> Suc m"
    using astar_correct [of G start goal] by auto
  have "\<forall>q'. path_between G start goal q' \<longrightarrow> length p \<le> length q'"
    using opt path_length_reach by metis
  then show ?thesis using p path_cells_free [OF p(2) assms(1)] by blast
qed

text \<open>Around the fixture, from \<open>(3, 5)\<close> to \<open>(7, 5)\<close>: the start is passable and a path of
  nine cells exists, so the path found has at most nine cells; it has exactly nine.\<close>

theorem astar_optimal_witness:
  "\<exists>p. astar walled_floor (3, 5) (7, 5) = Some p \<and> path_between walled_floor (3, 5) (7, 5) p
       \<and> length p \<le> 9 \<and> length p = 9"
proof -
  obtain p where p: "astar walled_floor (3, 5) (7, 5) = Some p"
      "path_between walled_floor (3, 5) (7, 5) p"
      "\<forall>q'. path_between walled_floor (3, 5) (7, 5) q' \<longrightarrow> length p \<le> length q'"
    using astar_optimal [OF detour_start detour_path] by blast
  have "length p \<le> 9" using p(3) detour_path by fastforce
  moreover have "length p = 9" using detour_astar_length p(1) by simp
  ultimately show ?thesis using p(1,2) by blast
qed

text \<open>
  Claim C2: for every grid and every goal reachable from the start, the A* search and the
  Dijkstra search both return a path from the start to the goal, and the two paths have the
  same length.
\<close>

theorem astar_dijkstra_same_length:
  assumes "path_between G start goal q"
  shows "\<exists>p p'. astar G start goal = Some p \<and> dijkstra G start goal = Some p'
           \<and> path_between G start goal p \<and> path_between G start goal p'
           \<and> length p = length p'"
proof -
  have r: "\<exists>m. reach G start m goal" using assms reachable_iff by blast
  obtain p where p: "astar G start goal = Some p" "path_between G start goal p"
    and opt: "\<forall>m. reach G start m goal \<longrightarrow> length p \<le> Suc m"
    using astar_correct [of G start goal] r by auto
  obtain p' where p': "dijkstra G start goal = Some p'" "path_between G start goal p'"
    and opt': "\<forall>m. reach G start m goal \<longrightarrow> length p' \<le> Suc m"
    using dijkstra_correct [of G start goal] r by auto
  have "length p \<le> length p'" using opt path_length_reach [OF p'(2)] by auto
  moreover have "length p' \<le> length p" using opt' path_length_reach [OF p(2)] by auto
  ultimately show ?thesis using p p' by auto
qed

text \<open>Around the fixture both searches find a path of nine cells.\<close>

theorem astar_dijkstra_same_length_witness:
  "\<exists>p p'. astar walled_floor (3, 5) (7, 5) = Some p \<and> dijkstra walled_floor (3, 5) (7, 5) = Some p'
       \<and> length p = length p' \<and> length p' = 9"
proof -
  obtain p p' where p: "astar walled_floor (3, 5) (7, 5) = Some p"
      "dijkstra walled_floor (3, 5) (7, 5) = Some p'" "length p = length p'"
    using astar_dijkstra_same_length [OF detour_path] by blast
  have "length p' = 9" using detour_dijkstra_length p(2) by simp
  then show ?thesis using p by blast
qed

text \<open>
  Claim C7: when no path leads from the start to the goal, both searches return the empty
  list, as an ordinary result. In particular this is so for a goal, other than a passable
  start, all of whose neighbours are blocked or outside the grid.
\<close>

theorem unreachable_goal_empty:
  "(\<not> (\<exists>q. path_between G start goal q)
      \<longrightarrow> astar G start goal = Some [] \<and> dijkstra G start goal = Some [])
   \<and> (start \<noteq> goal \<and> free G start \<and> (\<forall>c. adjacent c goal \<longrightarrow> \<not> free G c)
      \<longrightarrow> astar G start goal = Some [] \<and> dijkstra G start goal = Some [])"
proof -
  have a: "\<not> (\<exists>q. path_between G start goal q)
      \<Longrightarrow> astar G start goal = Some [] \<and> dijkstra G start goal = Some []"
  proof -
    assume "\<not> (\<exists>q. path_between G start goal q)"
    then have "\<not> (\<exists>m. reach G start m goal)" using reachable_iff by blast
    then show ?thesis
      using astar_correct [of G start goal] dijkstra_correct [of G start goal] by auto
  qed
  then show ?thesis using enclosed_unreachable by blast
qed

text \<open>The centre of the 3 by 3 fixture cannot be reached from the start of the script.\<close>

theorem unreachable_goal_empty_witness:
  "\<not> (\<exists>q. path_between walled_floor (1, 19) (5, 5) q)
   \<and> astar walled_floor (1, 19) (5, 5) = Some []
   \<and> dijkstra walled_floor (1, 19) (5, 5) = Some []"
proof -
  have f: "free walled_floor (1, 19)"
    by (simp add: walled_floor_free in_bounds_def rect_cells_def)
  have e: "\<forall>c. adjacent c (5, 5) \<longrightarrow> \<not> free walled_floor c"
  proof (intro allI impI)
    fix c :: pos assume "adjacent c (5, 5)"
    then have "adjacent (5, 5) c" by (rule adjacent_sym)
    then have "c = (6, 5) \<or> c = (4, 5) \<or> c = (5, 6) \<or> c = (5, 4)"
      using adjacent_dirs [of "(5, 5)" c] by (auto simp: DIRS_def)
    then show "\<not> free walled_floor c"
      by (auto simp: walled_floor_free rect_cells_def)
  qed
  have n: "\<not> (\<exists>q. path_between walled_floor (1, 19) (5, 5) q)"
    using enclosed_unreachable [OF _ f e] by simp
  show ?thesis
    using unreachable_goal_empty [of walled_floor "(1, 19)" "(5, 5)"] n f e by simp
qed

lemma frames_loop_all:
  assumes "\<forall>ab \<in> set pairs. \<exists>fs. body ab = Some fs \<and> set fs \<subseteq> A"
  shows "\<exists>frames. frames_loop body pairs acc = Some frames \<and> set frames \<subseteq> set acc \<union> A"
  using assms
proof (induction pairs arbitrary: acc)
  case Nil
  then show ?case by simp
next
  case (Cons ab pairs)
  obtain fs where fs: "body ab = Some fs" "set fs \<subseteq> A" using Cons.prems by auto
  obtain frames where "frames_loop body pairs (acc @ fs) = Some frames"
    "set frames \<subseteq> set (acc @ fs) \<union> A"
    using Cons.IH [of "acc @ fs"] Cons.prems by auto
  then show ?case using fs by auto
qed

lemma frames_loop_concat:
  assumes "\<forall>ab \<in> set pairs. body ab \<noteq> None"
  shows "frames_loop body pairs acc = Some (acc @ concat (map (\<lambda>ab. the (body ab)) pairs))"
  using assms
proof (induction pairs arbitrary: acc)
  case Nil
  then show ?case by simp
next
  case (Cons ab pairs)
  then obtain fs where fs: "body ab = Some fs" by auto
  then show ?case using Cons by simp
qed

lemma segment_cells:
  assumes seg: "seg = [] \<or> path_between G a b seg" and len: "1 < length seg"
  shows "set (tl seg) \<subseteq> {c. free G c}" and "free G b"
proof -
  have pb: "path_between G a b seg" using seg len by auto
  then have mo: "moves_ok G seg" and la: "last seg = b" by (auto simp: path_between_def)
  show t: "set (tl seg) \<subseteq> {c. free G c}" using moves_ok_free [OF mo] by auto
  have "tl seg \<noteq> []" using len by (cases seg) auto
  then have "last (tl seg) \<in> set (tl seg)" by simp
  moreover have "last (tl seg) = last seg" using \<open>tl seg \<noteq> []\<close> by (simp add: last_tl)
  ultimately show "free G b" using t la by auto
qed

lemma finder_result:
  assumes "pf = astar \<or> pf = dijkstra"
  shows "\<exists>seg. pf G a b = Some seg \<and> (seg = [] \<or> path_between G a b seg)"
proof -
  have "\<exists>seg. astar G a b = Some seg \<and> (seg = [] \<or> path_between G a b seg)"
    using astar_correct [of G a b] by (cases "\<exists>m. reach G a m b") auto
  moreover have "\<exists>seg. dijkstra G a b = Some seg \<and> (seg = [] \<or> path_between G a b seg)"
    using dijkstra_correct [of G a b] by (cases "\<exists>m. reach G a m b") auto
  ultimately show ?thesis using assms by auto
qed

lemma build_path_segment_free:
  assumes "pf = astar \<or> pf = dijkstra"
  shows "\<exists>fs. build_path_segment G DUE_POINTS END_POS mode pf ab = Some fs
           \<and> set fs \<subseteq> {c. free G c}"
proof -
  obtain a b where ab: "ab = (a, b)" by (cases ab)
  obtain seg where seg: "pf G a b = Some seg" "seg = [] \<or> path_between G a b seg"
    using finder_result [OF assms] by blast
  show ?thesis
  proof (cases "length seg \<le> 1")
    case True
    then show ?thesis using seg ab by (simp add: build_path_segment_def)
  next
    case False
    then have len: "1 < length seg" by simp
    have "set (tl seg) \<subseteq> {c. free G c}" "free G b"
      using segment_cells [OF seg(2) len] by auto
    then show ?thesis using seg ab False
      by (auto simp: build_path_segment_def dwell_def Let_def)
  qed
qed

lemma build_frames_segment_free:
  "\<exists>fs. build_frames_segment G due_set mode ab = Some fs \<and> set fs \<subseteq> {c. free G c}"
proof -
  obtain a b where ab: "ab = (a, b)" by (cases ab)
  obtain seg where seg: "astar G a b = Some seg" "seg = [] \<or> path_between G a b seg"
    using finder_result [of astar] by blast
  show ?thesis
  proof (cases "length seg \<le> 1")
    case True
    then show ?thesis using seg ab by (simp add: build_frames_segment_def)
  next
    case False
    then have len: "1 < length seg" by simp
    have "set (tl seg) \<subseteq> {c. free G c}" "free G b"
      using segment_cells [OF seg(2) len] by auto
    then show ?thesis using seg ab False
      by (auto simp: build_frames_segment_def dwell_def)
  qed
qed

text \<open>
  Claim C10: for every grid, route, mode and algorithm, both frame builders return a frame
  sequence, and every position in it (dwell copies included) is inside the grid and not
  blocked, whether or not the waypoints themselves are passable or reachable; a route with
  fewer than two waypoints gives the empty sequence.
\<close>

theorem frames_passable:
  "(\<exists>frames. build_path G DUE_POINTS END_POS route mode pathfinder = Some frames
       \<and> (\<forall>c \<in> set frames. free G c) \<and> (length route < 2 \<longrightarrow> frames = []))
   \<and> (\<exists>frames. build_frames G route cs pct_by_cluster threshold_pct mode = Some frames
       \<and> (\<forall>c \<in> set frames. free G c) \<and> (length route < 2 \<longrightarrow> frames = []))"
proof -
  define pf where "pf = (if pathfinder = ''astar'' then astar else dijkstra)"
  have pf: "pf = astar \<or> pf = dijkstra" by (simp add: pf_def)
  obtain f1 where f1: "frames_loop (build_path_segment G DUE_POINTS END_POS mode pf)
        (zip (butlast route) (tl route)) [] = Some f1" "set f1 \<subseteq> set [] \<union> {c. free G c}"
    using frames_loop_all [of "zip (butlast route) (tl route)"
        "build_path_segment G DUE_POINTS END_POS mode pf" "{c. free G c}" "[]"]
      build_path_segment_free [OF pf] by blast
  have a: "\<exists>frames. build_path G DUE_POINTS END_POS route mode pathfinder = Some frames
       \<and> (\<forall>c \<in> set frames. free G c) \<and> (length route < 2 \<longrightarrow> frames = [])"
  proof (cases "length route < 2")
    case True
    then show ?thesis by (simp add: build_path_def)
  next
    case False
    then show ?thesis using f1 by (auto simp: build_path_def Let_def pf_def)
  qed
  obtain f2 where f2: "frames_loop (build_frames_segment G
        (set (due_points pct_by_cluster threshold_pct cs)) mode)
        (zip (butlast route) (tl route)) [] = Some f2" "set f2 \<subseteq> set [] \<union> {c. free G c}"
    using frames_loop_all [of "zip (butlast route) (tl route)"
        "build_frames_segment G (set (due_points pct_by_cluster threshold_pct cs)) mode"
        "{c. free G c}" "[]"]
      build_frames_segment_free by blast
  have b: "\<exists>frames. build_frames G route cs pct_by_cluster threshold_pct mode = Some frames
       \<and> (\<forall>c \<in> set frames. free G c) \<and> (length route < 2 \<longrightarrow> frames = [])"
  proof (cases "length route < 2")
    case True
    then show ?thesis by (simp add: build_frames_def)
  next
    case False
    then show ?thesis using f2 by (auto simp: build_frames_def Let_def)
  qed
  from a b show ?thesis by blast
qed

text \<open>A route whose second waypoint is reached, whose third is the unreachable blocked
  centre of the fixture, and whose last segment starts from that blocked cell; and a route
  of one waypoint.\<close>

theorem frames_passable_witness:
  "(\<exists>frames. build_path walled_floor [(7, 5)] (Some (3, 5)) [(3, 5), (7, 5), (5, 5), (3, 5)]
        ''nn'' ''dijkstra'' = Some frames \<and> set frames \<subseteq> {c. free walled_floor c})
   \<and> (\<exists>frames. build_frames walled_floor [(3, 5), (7, 5), (5, 5), (3, 5)] [] Map.empty 80
        ''patrol'' = Some frames \<and> set frames \<subseteq> {c. free walled_floor c})
   \<and> build_path walled_floor [] None [(3, 5)] ''nn'' ''astar'' = Some []
   \<and> build_frames walled_floor [(3, 5)] [] Map.empty 80 ''nn'' = Some []"
proof -
  obtain f1 where f1: "build_path walled_floor [(7, 5)] (Some (3, 5))
        [(3, 5), (7, 5), (5, 5), (3, 5)] ''nn'' ''dijkstra'' = Some f1"
      "\<forall>c \<in> set f1. free walled_floor c"
    using frames_passable [where G = walled_floor and DUE_POINTS = "[(7, 5)]"
      and END_POS = "Some (3, 5)" and route = "[(3, 5), (7, 5), (5, 5), (3, 5)]"
      and mode = "''nn''" and pathfinder = "''dijkstra''"
      and cs = "[]" and pct_by_cluster = Map.empty and threshold_pct = 80]
    by blast
  obtain f2 where f2: "build_frames walled_floor [(3, 5), (7, 5), (5, 5), (3, 5)] [] Map.empty 80
        ''patrol'' = Some f2"
      "\<forall>c \<in> set f2. free walled_floor c"
    using frames_passable [where G = walled_floor and DUE_POINTS = "[(7, 5)]"
      and END_POS = "Some (3, 5)" and route = "[(3, 5), (7, 5), (5, 5), (3, 5)]"
      and mode = "''patrol''" and pathfinder = "''dijkstra''"
      and cs = "[]" and pct_by_cluster = Map.empty and threshold_pct = 80]
    by blast
  have e: "build_path walled_floor [] None [(3, 5)] ''nn'' ''astar'' = Some []"
      "build_frames walled_floor [(3, 5)] [] Map.empty 80 ''nn'' = Some []"
    using frames_passable [where G = walled_floor and DUE_POINTS = "[]" and END_POS = None
      and route = "[(3, 5)]" and mode = "''nn''" and pathfinder = "''astar''"
      and cs = "[]" and pct_by_cluster = Map.empty and threshold_pct = 80]
    by auto
  have "set f1 \<subseteq> {c. free walled_floor c}" "set f2 \<subseteq> {c. free walled_floor c}"
    using f1(2) f2(2) by auto
  then show ?thesis using f1(1) f2(1) e by simp
qed

lemma dwell_counts:
  "nat (max 1 (SERVICE_PAUSE_SEC * FPS)) = 32" "nat (max 1 (QUICK_CHECK_SEC * FPS)) = 8"
  by (simp_all add: SERVICE_PAUSE_SEC_def QUICK_CHECK_SEC_def FPS_def)

lemma build_frames_concat:
  "build_frames G route cs pbc thr mode =
     Some (concat (map (\<lambda>ab. the (build_frames_segment G (set (due_points pbc thr cs)) mode ab))
        (zip (butlast route) (tl route))))"
proof -
  have some: "\<forall>ab \<in> set (zip (butlast route) (tl route)).
      build_frames_segment G (set (due_points pbc thr cs)) mode ab \<noteq> None"
    using build_frames_segment_free by fastforce
  show ?thesis
  proof (cases "length route < 2")
    case True
    then have "butlast route = []" by (cases route) auto
    then have z: "zip (butlast route) (tl route) = []" by simp
    show ?thesis unfolding z using True by (simp add: build_frames_def)
  next
    case False
    then show ?thesis using frames_loop_concat [OF some, of "[]"]
      by (simp add: build_frames_def Let_def)
  qed
qed

lemma build_path_concat:
  "build_path G DUE_POINTS END_POS route mode pathfinder =
     Some (concat (map (\<lambda>ab. the (build_path_segment G DUE_POINTS END_POS mode
          (if pathfinder = ''astar'' then astar else dijkstra) ab))
        (zip (butlast route) (tl route))))"
proof -
  define pf where "pf = (if pathfinder = ''astar'' then astar else dijkstra)"
  have pf: "pf = astar \<or> pf = dijkstra" by (simp add: pf_def)
  have some: "\<forall>ab \<in> set (zip (butlast route) (tl route)).
      build_path_segment G DUE_POINTS END_POS mode pf ab \<noteq> None"
    using build_path_segment_free [OF pf] by fastforce
  show ?thesis
  proof (cases "length route < 2")
    case True
    then have "butlast route = []" by (cases route) auto
    then have z: "zip (butlast route) (tl route) = []" by simp
    show ?thesis unfolding z using True by (simp add: build_path_def)
  next
    case False
    then show ?thesis using frames_loop_concat [OF some, of "[]"]
      unfolding pf_def by (simp add: build_path_def Let_def)
  qed
qed

text \<open>
  Claim C5, amended: on arrival at a waypoint \<open>b\<close> by a segment path of more than one cell,
  a builder appends the path without its first cell and then the dwell copies of \<open>b\<close>. The
  multi-floor \<open>build_frames\<close> appends \<open>max(1, SERVICE_PAUSE_SEC * FPS) = 32\<close> copies when \<open>b\<close> is
  DUE and \<open>max(1, QUICK_CHECK_SEC * FPS) = 8\<close> copies when \<open>b\<close> is not DUE and the mode is
  \<open>patrol\<close>, at every arrival, the end waypoint included. The single-floor \<open>build_path\<close>
  appends the same numbers (for a DUE waypoint in the modes \<open>nn\<close> and \<open>patrol\<close>, for another
  waypoint in the mode \<open>patrol\<close>) except on arrival at the configured \<open>END_POS\<close>, where it
  appends none. The frame sequence is the concatenation of what the segments append.
\<close>

theorem dwell_after_arrival:
  "(astar G a b = Some seg \<and> 1 < length seg \<longrightarrow>
      build_frames_segment G due_set mode (a, b) =
        Some (tl seg @ replicate
          (if b \<in> due_set then nat (max 1 (SERVICE_PAUSE_SEC * FPS))
           else if mode = ''patrol'' then nat (max 1 (QUICK_CHECK_SEC * FPS)) else 0) b))
   \<and> (pf G a b = Some seg \<and> 1 < length seg \<longrightarrow>
      build_path_segment G DUE_POINTS END_POS mode pf (a, b) =
        Some (tl seg @ replicate
          (if END_POS = Some b then 0
           else if b \<in> set DUE_POINTS \<and> (mode = ''nn'' \<or> mode = ''patrol'')
             then nat (max 1 (SERVICE_PAUSE_SEC * FPS))
           else if mode = ''patrol'' then nat (max 1 (QUICK_CHECK_SEC * FPS)) else 0) b))
   \<and> nat (max 1 (SERVICE_PAUSE_SEC * FPS)) = 32 \<and> nat (max 1 (QUICK_CHECK_SEC * FPS)) = 8
   \<and> build_frames G route cs pct_by_cluster threshold_pct mode =
       Some (concat (map (\<lambda>ab. the (build_frames_segment G
            (set (due_points pct_by_cluster threshold_pct cs)) mode ab))
          (zip (butlast route) (tl route))))
   \<and> build_path G DUE_POINTS END_POS route mode pathfinder =
       Some (concat (map (\<lambda>ab. the (build_path_segment G DUE_POINTS END_POS mode
            (if pathfinder = ''astar'' then astar else dijkstra) ab))
          (zip (butlast route) (tl route))))"
proof -
  have a: "astar G a b = Some seg \<and> 1 < length seg \<longrightarrow>
      build_frames_segment G due_set mode (a, b) =
        Some (tl seg @ replicate
          (if b \<in> due_set then nat (max 1 (SERVICE_PAUSE_SEC * FPS))
           else if mode = ''patrol'' then nat (max 1 (QUICK_CHECK_SEC * FPS)) else 0) b)"
    by (simp add: build_frames_segment_def dwell_def)
  have b: "pf G a b = Some seg \<and> 1 < length seg \<longrightarrow>
      build_path_segment G DUE_POINTS END_POS mode pf (a, b) =
        Some (tl seg @ replicate
          (if END_POS = Some b then 0
           else if b \<in> set DUE_POINTS \<and> (mode = ''nn'' \<or> mode = ''patrol'')
             then nat (max 1 (SERVICE_PAUSE_SEC * FPS))
           else if mode = ''patrol'' then nat (max 1 (QUICK_CHECK_SEC * FPS)) else 0) b)"
    by (cases END_POS) (auto simp: build_path_segment_def dwell_def Let_def)
  show ?thesis using a b dwell_counts build_frames_concat build_path_concat by blast
qed

lemma short_segment: "astar empty_floor (1, 18) (1, 19) = Some [(1, 18), (1, 19)]"
  by code_simp

text \<open>
  Claim C5, as stated: the dwell copies follow every arrival, the arrival at the configured
  end waypoint included. It fails on the single-floor \<open>build_path\<close>: in mode \<open>patrol\<close> the
  segment from \<open>(1, 18)\<close> to the end position \<open>(1, 19)\<close> has two cells, and the frames are
  the arrival cell alone, without the 8 copies; so it is in mode \<open>nn\<close> when the end
  position is a DUE point, without the 32 copies.
\<close>

theorem end_waypoint_dwell_counterexample:
  "astar empty_floor (1, 18) (1, 19) = Some [(1, 18), (1, 19)]
   \<and> build_path empty_floor [] (Some (1, 19)) [(1, 18), (1, 19)] ''patrol'' ''astar''
       = Some [(1, 19)]
   \<and> build_path empty_floor [(1, 19)] (Some (1, 19)) [(1, 18), (1, 19)] ''nn'' ''astar''
       = Some [(1, 19)]"
  by code_simp

text \<open>The segment from \<open>(1, 18)\<close> to \<open>(1, 19)\<close> in four settings: a DUE arrival and a
  quick check in the multi-floor builder, a DUE arrival in the single-floor builder, and
  the arrival at the end position in the single-floor builder.\<close>

theorem dwell_after_arrival_witness:
  "build_frames_segment empty_floor {(1, 19)} ''nn'' ((1, 18), (1, 19))
     = Some ([(1, 19)] @ replicate 32 (1, 19))
   \<and> build_frames_segment empty_floor {} ''patrol'' ((1, 18), (1, 19))
     = Some ([(1, 19)] @ replicate 8 (1, 19))
   \<and> build_path_segment empty_floor [(1, 19)] None ''nn'' astar ((1, 18), (1, 19))
     = Some ([(1, 19)] @ replicate 32 (1, 19))
   \<and> build_path_segment empty_floor [] (Some (1, 19)) ''patrol'' astar ((1, 18), (1, 19))
     = Some ([(1, 19)] @ replicate 0 (1, 19))"
  using dwell_after_arrival [of empty_floor "(1, 18)" "(1, 19)" "[(1, 18), (1, 19)]"
      "{(1, 19)}" "''nn''" astar "[(1, 19)]" None]
    dwell_after_arrival [of empty_floor "(1, 18)" "(1, 19)" "[(1, 18), (1, 19)]"
      "{}" "''patrol''" astar "[]" "Some (1, 19)"]
    short_segment
  by simp

end
